theory Spec2Isabelle
  imports Complex_Main "HOL-Library.Signed_Division"
begin

section \<open>Katas: compass points, brace expansion and three stubs\<close>

text \<open>
  A shallow embedding of \<^verbatim>\<open>task/10-katas-1-tasks.js\<close>. A JavaScript string is a list
  of code units, modelled as \<^typ>\<open>string\<close>; the code only compares code units with
  the three characters \<^verbatim>\<open>{ } ,\<close> and concatenates. A thrown exception is a value of
  \<^typ>\<open>'e + 'a\<close> or \<^typ>\<open>'a option\<close>.
\<close>

subsection \<open>createCompassPoints\<close>

text \<open>
  \<^verbatim>\<open>result\<close> starts as the empty array and is written by index. Writing at or beyond
  the length extends a JavaScript array, leaving holes; a hole is \<open>None\<close>. Reading a
  hole or an index out of range gives \<^verbatim>\<open>undefined\<close>, which string concatenation
  prints as the text \<^verbatim>\<open>undefined\<close>. A negative index would name a property, not an
  element.
\<close>

type_synonym 'a js_array = "'a option list"

definition js_assign :: "'a js_array \<Rightarrow> int \<Rightarrow> 'a \<Rightarrow> 'a js_array" where
  "js_assign xs i v =
     (if i < 0 then xs
      else if nat i < length xs then xs[nat i := Some v]
      else xs @ replicate (nat i - length xs) None @ [Some v])"

definition js_read :: "string js_array \<Rightarrow> int \<Rightarrow> string" where
  "js_read xs i =
     (if 0 \<le> i \<and> nat i < length xs
      then (case xs ! nat i of Some s \<Rightarrow> s | None \<Rightarrow> ''undefined'')
      else ''undefined'')"

definition sides :: "string js_array" where
  "sides = [Some ''N'', Some ''E'', Some ''S'', Some ''W'']"

record compass_point =
  "abbreviation" :: string
  azimuth :: rat

text \<open>
  The body of the inner loop, for one \<open>i\<close> and one \<open>j\<close>. The operator \<^verbatim>\<open>%\<close> of
  JavaScript truncates towards zero, which is \<open>smod\<close>.
\<close>

definition compass_step :: "int \<Rightarrow> string js_array \<Rightarrow> int \<Rightarrow> string js_array" where
  "compass_step i result j =
     (let pos = (i * 8 + j + 32) smod 32;
          posi = (i + (if j < 0 then - 1 else 1) + 4) smod 4;
          ja = \<bar>j\<bar>;
          result1 = js_assign result pos (js_read sides i)
      in if j \<noteq> 0 then
           js_assign result1 pos
             (js_read result1 pos @
                (if ja smod 2 \<noteq> 0 then
                   (if ja > 1 then js_read sides posi else '''') @ ''b'' @
                   (if ja = 3 then js_read sides i else js_read sides posi)
                 else if ja = 4 then js_read sides posi
                 else if i smod 2 \<noteq> 0 then js_read sides posi @ js_read sides i
                 else js_read sides i @ js_read sides posi))
         else result1)"

definition compass_side :: "string js_array \<Rightarrow> int \<Rightarrow> string js_array" where
  "compass_side result i =
     (let from = (if i smod 2 \<noteq> 0 then 2 else 5)
      in fold (\<lambda>j r. compass_step i r j) [- from .. from] result)"

definition compass_labels :: "string js_array" where
  "compass_labels = fold (\<lambda>i r. compass_side r i) [0 .. 3] []"

text \<open>
  \<^verbatim>\<open>result.map\<close> visits the elements with their indices and keeps the holes. The
  factor 11.25 and every product \<open>i * 11.25\<close> for \<open>i < 32\<close> are multiples of a quarter
  below 512, which a double holds exactly, so the azimuth is modelled as a rational.
\<close>

definition createCompassPoints :: "compass_point js_array" where
  "createCompassPoints =
     map (\<lambda>(i, v). map_option (\<lambda>s. \<lparr>abbreviation = s, azimuth = of_nat i * 11.25\<rparr>) v)
       (enumerate 0 compass_labels)"

subsection \<open>The unimplemented functions\<close>

datatype js_error = Error string

text \<open>Each body is the single statement \<^verbatim>\<open>throw new Error('Not implemented')\<close>;
  the argument is never looked at, so its type is left open.\<close>

definition getZigZagMatrix :: "'n \<Rightarrow> js_error + int list list" where
  "getZigZagMatrix n = Inl (Error ''Not implemented'')"

definition canDominoesMakeRow :: "'d \<Rightarrow> js_error + bool" where
  "canDominoesMakeRow dominoes = Inl (Error ''Not implemented'')"

definition extractRanges :: "'l \<Rightarrow> js_error + string" where
  "extractRanges nums = Inl (Error ''Not implemented'')"

subsection \<open>expandBraces: parsing\<close>

text \<open>
  The constructor \<^verbatim>\<open>getArray(str, addEmpty)\<close> walks over \<^verbatim>\<open>str\<close> with the locals
  \<^verbatim>\<open>values\<close>, \<^verbatim>\<open>value\<close> and \<^verbatim>\<open>skip\<close>. When a closing brace brings \<^verbatim>\<open>skip\<close> back to
  zero it pushes \<^verbatim>\<open>new getVariants(value)\<close>. The loop is modelled in two passes that
  compute the same array: \<open>getArray_scan\<close> is the loop itself and records the text
  handed to \<^verbatim>\<open>getVariants\<close> as \<open>Braces value\<close>; \<open>getArray\<close> then applies the constructor to
  every recorded text. \<^verbatim>\<open>skip\<close> is an integer and may become negative; \<^verbatim>\<open>!skip\<close> tests
  for zero, and \<^verbatim>\<open>if (value)\<close> tests for a non-empty string.
\<close>

datatype segment = Text string | Braces string

fun getArray_scan :: "string \<Rightarrow> segment list \<Rightarrow> string \<Rightarrow> int \<Rightarrow> segment list \<times> string" where
  "getArray_scan [] values value skip = (values, value)"
| "getArray_scan (c # str) values value skip =
     (if c = CHR ''}'' then
        (if skip - 1 = 0 then getArray_scan str (values @ [Braces value]) [] (skip - 1)
         else getArray_scan str values (value @ [c]) (skip - 1))
      else if c = CHR ''{'' then
        (if skip = 0 then
           getArray_scan str (if value \<noteq> [] then values @ [Text value] else values) [] (skip + 1)
         else getArray_scan str values (value @ [c]) (skip + 1))
      else getArray_scan str values (value @ [c]) skip)"

text \<open>After the loop: \<^verbatim>\<open>if (value || addEmpty) values.push(value)\<close>.\<close>

definition getArray_segments :: "string \<Rightarrow> bool \<Rightarrow> segment list" where
  "getArray_segments str addEmpty =
     (case getArray_scan str [] [] 0 of
        (values, value) \<Rightarrow> if value \<noteq> [] \<or> addEmpty then values @ [Text value] else values)"

text \<open>
  The loop of \<^verbatim>\<open>getVariants(str)\<close> cuts \<^verbatim>\<open>str\<close> at the commas met while \<^verbatim>\<open>skip\<close> is
  zero; after the loop the last piece is pushed as well. Every piece becomes
  \<^verbatim>\<open>new getArray(piece, true)\<close>.
\<close>

fun getVariants_scan :: "string \<Rightarrow> string list \<Rightarrow> string \<Rightarrow> int \<Rightarrow> string list" where
  "getVariants_scan [] values value skip = values @ [value]"
| "getVariants_scan (c # str) values value skip =
     (if c = CHR '','' \<and> skip = 0 then getVariants_scan str (values @ [value]) [] skip
      else getVariants_scan str values (value @ [c])
             (if c = CHR ''{'' then skip + 1 else if c = CHR ''}'' then skip - 1 else skip))"

text \<open>
  An element of the \<^verbatim>\<open>values\<close> of a \<^verbatim>\<open>getArray\<close> object is a string or a
  \<^verbatim>\<open>getVariants\<close> object; the latter holds its own \<^verbatim>\<open>values\<close>, one \<^verbatim>\<open>getArray\<close>
  object (a list of elements) for each alternative, and the mutable \<^verbatim>\<open>position\<close>.
\<close>

datatype item = Str string | Variants "item list list" nat

text \<open>The two constructors call each other on strictly shorter texts.\<close>

lemma getArray_scan_Braces_length:
  "Braces s \<in> set (fst (getArray_scan str acc v skip)) \<Longrightarrow>
   Braces s \<in> set acc \<or> length s < length v + length str"
  by (induction str arbitrary: acc v skip) (fastforce split: if_splits)+

lemma getArray_segments_Braces_length:
  "Braces s \<in> set (getArray_segments str addEmpty) \<Longrightarrow> length s < length str"
proof -
  obtain acc v where scan: "getArray_scan str [] [] 0 = (acc, v)"
    by (cases "getArray_scan str [] [] 0")
  assume "Braces s \<in> set (getArray_segments str addEmpty)"
  with scan have "Braces s \<in> set (fst (getArray_scan str [] [] 0))"
    by (auto simp: getArray_segments_def split: if_splits)
  then show ?thesis
    using getArray_scan_Braces_length [of s str "[]" "[]" 0] by simp
qed

lemma getVariants_scan_length:
  "s \<in> set (getVariants_scan str acc v skip) \<Longrightarrow>
   s \<in> set acc \<or> length s \<le> length v + length str"
  by (induction str arbitrary: acc v skip) (fastforce split: if_splits)+

function getArray :: "string \<Rightarrow> bool \<Rightarrow> item list" and getVariants :: "string \<Rightarrow> item" where
  "getArray str addEmpty =
     map (\<lambda>seg. case seg of Text s \<Rightarrow> Str s | Braces s \<Rightarrow> getVariants s)
       (getArray_segments str addEmpty)"
| "getVariants str = Variants (map (\<lambda>s. getArray s True) (getVariants_scan str [] [] 0)) 0"
  by pat_completeness auto
termination
proof (relation "measure (\<lambda>x. case x of Inl (str, _) \<Rightarrow> 2 * length str | Inr str \<Rightarrow> 2 * length str + 1)")
  show "wf (measure (\<lambda>x. case x of Inl (str, _) \<Rightarrow> 2 * length str | Inr str \<Rightarrow> 2 * length str + 1))"
    by simp
next
  fix str addEmpty x x2
  assume "x \<in> set (getArray_segments str addEmpty)" "x = Braces x2"
  then have "length x2 < length str"
    using getArray_segments_Braces_length by blast
  then show "(Inr x2, Inl (str, addEmpty)) \<in> measure (\<lambda>x. case x of Inl (str, _) \<Rightarrow> 2 * length str | Inr str \<Rightarrow> 2 * length str + 1)"
    by simp
next
  fix str x
  assume "x \<in> set (getVariants_scan str [] [] 0)"
  then have "length x \<le> length str"
    using getVariants_scan_length [of x str "[]" "[]" 0] by simp
  then show "(Inl (x, True), Inr str) \<in> measure (\<lambda>x. case x of Inl (str, _) \<Rightarrow> 2 * length str | Inr str \<Rightarrow> 2 * length str + 1)"
    by simp
qed

declare getArray.simps [simp del] getVariants.simps [simp del]

subsection \<open>expandBraces: the methods current and next\<close>

text \<open>
  \<^verbatim>\<open>values[position]\<close> with \<^verbatim>\<open>position\<close> out of range is \<^verbatim>\<open>undefined\<close>, and calling
  a method on it throws a TypeError: the result \<open>None\<close>. The method \<^verbatim>\<open>next\<close> changes
  \<^verbatim>\<open>position\<close> in the objects below it, so the model returns the changed objects
  together with the boolean. Every object is made by one \<^verbatim>\<open>new\<close> and stored in one
  \<^verbatim>\<open>values\<close> array, so the objects form a tree and no change is seen through a second
  reference.
\<close>

lemma nth_size_le: "p < length bs \<Longrightarrow> f (bs ! p) \<le> size_list f bs"
proof (induction bs arbitrary: p)
  case Nil
  then show ?case by simp
next
  case (Cons a bs)
  show ?case
  proof (cases p)
    case 0
    then show ?thesis by simp
  next
    case (Suc j)
    with Cons.prems have "j < length bs" by simp
    from Cons.IH [OF this] Suc show ?thesis by simp
  qed
qed

function getArray_current :: "item list \<Rightarrow> string option"
  and getVariants_current :: "item list list \<Rightarrow> nat \<Rightarrow> string option" where
  "getArray_current [] = Some []"
| "getArray_current (Str s # values) = map_option ((@) s) (getArray_current values)"
| "getArray_current (Variants vs p # values) =
     (case getVariants_current vs p of None \<Rightarrow> None
      | Some s \<Rightarrow> map_option ((@) s) (getArray_current values))"
| "getVariants_current values position =
     (if position < length values then getArray_current (values ! position) else None)"
  by pat_completeness auto
termination
  apply (relation "measure (\<lambda>x. case x of Inl values \<Rightarrow> 2 * size_list size values | Inr (values, _) \<Rightarrow> 2 * size_list (size_list size) values + 1)")
  apply simp_all
  using nth_size_le
  apply (metis  le_imp_less_Suc mult_le_mono2)
  done

function getArray_next :: "item list \<Rightarrow> (bool \<times> item list) option"
  and getVariants_next :: "item list list \<Rightarrow> nat \<Rightarrow> (bool \<times> item) option" where
  "getArray_next [] = Some (False, [])"
| "getArray_next (Str s # values) =
     (case getArray_next values of None \<Rightarrow> None
      | Some (again, values') \<Rightarrow> Some (again, Str s # values'))"
| "getArray_next (Variants vs p # values) =
     (case getVariants_next vs p of None \<Rightarrow> None
      | Some (again, v') \<Rightarrow>
          if again then Some (True, v' # values)
          else (case getArray_next values of None \<Rightarrow> None
                | Some (again', values') \<Rightarrow> Some (again', v' # values')))"
| "getVariants_next values position =
     (if position < length values then
        (case getArray_next (values ! position) of None \<Rightarrow> None
         | Some (again, arr') \<Rightarrow>
             if again then Some (True, Variants (values[position := arr']) position)
             else if position + 1 < length values
                  then Some (True, Variants (values[position := arr']) (position + 1))
                  else Some (False, Variants (values[position := arr']) 0))
      else None)"
  by pat_completeness auto
termination
  apply (relation "measure (\<lambda>x. case x of Inl values \<Rightarrow> 2 * size_list size values | Inr (values, _) \<Rightarrow> 2 * size_list (size_list size) values + 1)")
  apply simp_all
  using nth_size_le
  apply (metis  le_imp_less_Suc mult_le_mono2)
  done

subsection \<open>expandBraces: the generator\<close>

text \<open>
  \<^verbatim>\<open>do { yield arr.current(); } while (arr.next());\<close> The list holds the yielded
  strings in order; \<open>None\<close> stands for a run that throws or never finishes. The
  objects are built inside the call, so a call depends on \<^verbatim>\<open>str\<close> alone.
\<close>

partial_function (option) generate :: "item list \<Rightarrow> string list option" where
  "generate arr =
     (case getArray_current arr of None \<Rightarrow> None
      | Some s \<Rightarrow>
         (case getArray_next arr of None \<Rightarrow> None
          | Some (again, arr') \<Rightarrow>
              if again then Option.bind (generate arr') (\<lambda>rest. Some (s # rest))
              else Some [s]))"

declare generate.simps [code]

definition expandBraces :: "string \<Rightarrow> string list option" where
  "expandBraces str = generate (getArray str False)"

subsection \<open>expandBraces: what the enumeration should produce\<close>

text \<open>
  The strings of a sequence of elements are all ways of choosing one string for each
  element; the first element changes fastest. The strings of a group are those of its
  alternatives, one alternative after the other. None of this looks at \<^verbatim>\<open>position\<close>.
\<close>

fun odometer :: "string list list \<Rightarrow> string list" where
  "odometer [] = [[]]"
| "odometer (xs # xss) = concat (map (\<lambda>rest. map (\<lambda>x. x @ rest) xs) (odometer xss))"

fun expand_item :: "item \<Rightarrow> string list" where
  "expand_item (Str s) = [s]"
| "expand_item (Variants vs p) = concat (map (\<lambda>branch. odometer (map expand_item branch)) vs)"

definition expand_arr :: "item list \<Rightarrow> string list" where
  "expand_arr arr = odometer (map expand_item arr)"

text \<open>
  The number of combinations: a text counts one, a group counts the sum over its
  alternatives, and a sequence counts the product over its elements, so that a nested
  group multiplies the count of the alternative that contains it.
\<close>

fun count_item :: "item \<Rightarrow> nat" where
  "count_item (Str s) = 1"
| "count_item (Variants vs p) = sum_list (map (\<lambda>branch. prod_list (map count_item branch)) vs)"

definition count_arr :: "item list \<Rightarrow> nat" where
  "count_arr arr = prod_list (map count_item arr)"

text \<open>
  The number of combinations already left behind by a state: the positions read as a
  number in mixed radix, the first element being the lowest digit.
\<close>

fun mixed_radix :: "(nat \<times> nat) list \<Rightarrow> nat" where
  "mixed_radix [] = 0"
| "mixed_radix ((i, n) # ds) = i + n * mixed_radix ds"

fun index_item :: "item \<Rightarrow> nat" where
  "index_item (Str s) = 0"
| "index_item (Variants vs p) =
     sum_list (map count_arr (take p vs)) +
     (if p < length vs
      then map (\<lambda>branch. mixed_radix (map (\<lambda>v. (index_item v, count_item v)) branch)) vs ! p
      else 0)"

definition index_arr :: "item list \<Rightarrow> nat" where
  "index_arr arr = mixed_radix (map (\<lambda>v. (index_item v, count_item v)) arr)"

text \<open>
  \<open>reset_item\<close> puts every position back to zero. A state is well formed when every
  position is in range and every alternative other than the selected one is reset.
\<close>

fun reset_item :: "item \<Rightarrow> item" where
  "reset_item (Str s) = Str s"
| "reset_item (Variants vs p) = Variants (map (map reset_item) vs) 0"

fun ok_item :: "item \<Rightarrow> bool" where
  "ok_item (Str s) = True"
| "ok_item (Variants vs p) =
     (p < length vs \<and> (\<forall>branch \<in> set vs. \<forall>v \<in> set branch. ok_item v) \<and>
      (\<forall>i < length vs. i \<noteq> p \<longrightarrow> map reset_item (vs ! i) = vs ! i))"

definition ok_arr :: "item list \<Rightarrow> bool" where
  "ok_arr arr = (\<forall>v \<in> set arr. ok_item v)"

text \<open>What a call of \<^verbatim>\<open>next\<close> achieves on a well-formed state.\<close>

definition next_post_arr :: "item list \<Rightarrow> (bool \<times> item list) option \<Rightarrow> bool" where
  "next_post_arr arr r =
     (case r of None \<Rightarrow> False
      | Some (again, arr') \<Rightarrow>
          ok_arr arr' \<and> map reset_item arr' = map reset_item arr \<and>
          (if again then index_arr arr' = Suc (index_arr arr)
           else Suc (index_arr arr) = count_arr arr \<and> arr' = map reset_item arr))"

definition next_post_item :: "item \<Rightarrow> (bool \<times> item) option \<Rightarrow> bool" where
  "next_post_item v r =
     (case r of None \<Rightarrow> False
      | Some (again, v') \<Rightarrow>
          ok_item v' \<and> reset_item v' = reset_item v \<and>
          (if again then index_item v' = Suc (index_item v)
           else Suc (index_item v) = count_item v \<and> v' = reset_item v))"

subsection \<open>expandBraces: templates with balanced braces\<close>

text \<open>
  \<open>depth_after d str\<close> is the nesting depth after reading \<open>str\<close> from depth \<open>d\<close>, and
  \<open>None\<close> when a closing brace has no opening one. A template is balanced when it ends
  at depth zero. \<open>unparse_arr\<close> writes a parsed template back as text: a group is its
  alternatives between braces, separated by commas.
\<close>

fun depth_after :: "nat \<Rightarrow> string \<Rightarrow> nat option" where
  "depth_after d [] = Some d"
| "depth_after d (c # str) =
     (if c = CHR ''{'' then depth_after (Suc d) str
      else if c = CHR ''}'' then (case d of 0 \<Rightarrow> None | Suc d' \<Rightarrow> depth_after d' str)
      else depth_after d str)"

definition balanced :: "string \<Rightarrow> bool" where
  "balanced str = (depth_after 0 str = Some 0)"

fun join :: "string list \<Rightarrow> string" where
  "join [] = []"
| "join [x] = x"
| "join (x # y # ys) = x @ '','' @ join (y # ys)"

fun unparse_item :: "item \<Rightarrow> string" where
  "unparse_item (Str s) = s"
| "unparse_item (Variants vs p) =
     ''{'' @ join (map (\<lambda>branch. concat (map unparse_item branch)) vs) @ ''}''"

definition unparse_arr :: "item list \<Rightarrow> string" where
  "unparse_arr arr = concat (map unparse_item arr)"

fun seg_text :: "segment \<Rightarrow> string" where
  "seg_text (Text s) = s"
| "seg_text (Braces s) = ''{'' @ s @ ''}''"

subsection \<open>expandBraces: templates as trees\<close>

text \<open>
  A template read as a tree, independently of the parser above: a sequence of texts and
  groups, a group being a non-empty list of alternatives, each again such a sequence.
  The tree is plain when no text holds a brace and no text inside a group holds a
  comma, so that every brace and every comma of a group in the written template
  (\<open>unparse_arr\<close>) is one of the tree. The flag says whether the element lies inside a
  group.
\<close>

fun plain_item :: "bool \<Rightarrow> item \<Rightarrow> bool" where
  "plain_item in_group (Str s) =
     (CHR ''{'' \<notin> set s \<and> CHR ''}'' \<notin> set s \<and> (in_group \<longrightarrow> CHR '','' \<notin> set s))"
| "plain_item in_group (Variants vs p) =
     (vs \<noteq> [] \<and> (\<forall>branch \<in> set vs. \<forall>v \<in> set branch. plain_item True v))"

definition plain_arr :: "bool \<Rightarrow> item list \<Rightarrow> bool" where
  "plain_arr in_group arr = (\<forall>v \<in> set arr. plain_item in_group v)"

text \<open>The first combination takes the first alternative of every group.\<close>

fun first_item :: "item \<Rightarrow> string" where
  "first_item (Str s) = s"
| "first_item (Variants [] p) = []"
| "first_item (Variants (branch # vs) p) = concat (map first_item branch)"

definition first_arr :: "item list \<Rightarrow> string" where
  "first_arr arr = concat (map first_item arr)"

text \<open>
  Auxiliary notions for the proofs: the product of two lists of strings, the strings of
  a scanned segment, the segments the scanner collects from a written tree, and a
  string whose commas all lie inside braces.
\<close>

definition cat :: "string list \<Rightarrow> string list \<Rightarrow> string list" where
  "cat xs ys = concat (map (\<lambda>y. map (\<lambda>x. x @ y) xs) ys)"

definition seg_expand :: "segment \<Rightarrow> string list" where
  "seg_expand seg = expand_item (case seg of Text s \<Rightarrow> Str s | Braces s \<Rightarrow> getVariants s)"

fun feed :: "item list \<Rightarrow> segment list \<Rightarrow> string \<Rightarrow> segment list \<times> string" where
  "feed [] acc v = (acc, v)"
| "feed (Str s # arr) acc v = feed arr acc (v @ s)"
| "feed (Variants vs p # arr) acc v =
     feed arr ((if v \<noteq> [] then acc @ [Text v] else acc) @ [Braces (join (map unparse_arr vs))]) []"

fun parsed_ok :: "item \<Rightarrow> bool" where
  "parsed_ok (Str s) = True"
| "parsed_ok (Variants vs p) =
     (expand_item (getVariants (join (map unparse_arr vs))) = expand_item (Variants vs p))"

fun top_comma_free :: "nat \<Rightarrow> string \<Rightarrow> bool" where
  "top_comma_free d [] = True"
| "top_comma_free d (c # str) =
     (if c = CHR ''{'' then top_comma_free (Suc d) str
      else if c = CHR ''}'' then top_comma_free (d - 1) str
      else (c = CHR '','' \<longrightarrow> d \<noteq> 0) \<and> top_comma_free d str)"

section \<open>Properties\<close>

subsection \<open>The compass table\<close>

lemma compass_labels_table:
  "compass_labels = map Some
     [''N'', ''NbE'', ''NNE'', ''NEbN'', ''NE'', ''NEbE'', ''ENE'', ''EbN'',
      ''E'', ''EbS'', ''ESE'', ''SEbE'', ''SE'', ''SEbS'', ''SSE'', ''SbE'',
      ''S'', ''SbW'', ''SSW'', ''SWbS'', ''SW'', ''SWbW'', ''WSW'', ''WbS'',
      ''W'', ''WbN'', ''WNW'', ''NWbW'', ''NW'', ''NWbN'', ''NNW'', ''NbW'']"
  by code_simp

lemma createCompassPoints_table:
  "createCompassPoints =
     map (\<lambda>(i, s). Some \<lparr>abbreviation = s, azimuth = of_nat i * 11.25\<rparr>)
       (enumerate 0
         [''N'', ''NbE'', ''NNE'', ''NEbN'', ''NE'', ''NEbE'', ''ENE'', ''EbN'',
          ''E'', ''EbS'', ''ESE'', ''SEbE'', ''SE'', ''SEbS'', ''SSE'', ''SbE'',
          ''S'', ''SbW'', ''SSW'', ''SWbS'', ''SW'', ''SWbW'', ''WSW'', ''WbS'',
          ''W'', ''WbN'', ''WNW'', ''NWbW'', ''NW'', ''NWbN'', ''NNW'', ''NbW''])"
  unfolding createCompassPoints_def compass_labels_table
  by simp

text \<open>
  C5: createCompassPoints returns exactly 32 entries, none of them a hole; the azimuth
  of entry \<open>i\<close> is \<open>i * 11.25\<close> for every \<open>i\<close> from 0 to 31; entries 0, 8, 16 and 24 are
  N at 0, E at 90, S at 180 and W at 270; the last entry has azimuth 348.75.
\<close>

theorem createCompassPoints_azimuths:
  "length createCompassPoints = 32 \<and>
   map (map_option azimuth) createCompassPoints =
     map (\<lambda>i. Some (of_nat i * 11.25)) [0..<32] \<and>
   createCompassPoints ! 0 = Some \<lparr>abbreviation = ''N'', azimuth = 0\<rparr> \<and>
   createCompassPoints ! 8 = Some \<lparr>abbreviation = ''E'', azimuth = 90\<rparr> \<and>
   createCompassPoints ! 16 = Some \<lparr>abbreviation = ''S'', azimuth = 180\<rparr> \<and>
   createCompassPoints ! 24 = Some \<lparr>abbreviation = ''W'', azimuth = 270\<rparr> \<and>
   map_option azimuth (last createCompassPoints) = Some 348.75"
  unfolding createCompassPoints_table
  by code_simp

text \<open>
  C6 as stated (index 1 is NbE, index 4 is NNE, index 5 is NEbN, index 6 is not NEbE)
  does not hold: the table has NE at index 4 and NEbE at index 5.
\<close>

theorem createCompassPoints_index_4_5_counterexample:
  "\<not> (map_option abbreviation (createCompassPoints ! 1) = Some ''NbE'' \<and>
      map_option abbreviation (createCompassPoints ! 4) = Some ''NNE'' \<and>
      map_option abbreviation (createCompassPoints ! 5) = Some ''NEbN'' \<and>
      map_option abbreviation (createCompassPoints ! 6) \<noteq> Some ''NEbE'')"
  unfolding createCompassPoints_table
  by simp

text \<open>
  C6, amended: index 1 is NbE, NNE is at index 2 and NEbN at index 3, index 4 is NE,
  index 5 is NEbE, and index 6 is ENE, which is not NEbE.
\<close>

theorem createCompassPoints_first_points:
  "map_option abbreviation (createCompassPoints ! 1) = Some ''NbE'' \<and>
   map_option abbreviation (createCompassPoints ! 2) = Some ''NNE'' \<and>
   map_option abbreviation (createCompassPoints ! 3) = Some ''NEbN'' \<and>
   map_option abbreviation (createCompassPoints ! 4) = Some ''NE'' \<and>
   map_option abbreviation (createCompassPoints ! 5) = Some ''NEbE'' \<and>
   map_option abbreviation (createCompassPoints ! 6) = Some ''ENE'' \<and>
   map_option abbreviation (createCompassPoints ! 6) \<noteq> Some ''NEbE''"
  unfolding createCompassPoints_table
  by simp

subsection \<open>The unimplemented functions\<close>

text \<open>
  C7: for every input, getZigZagMatrix, canDominoesMakeRow and extractRanges throw the
  error "Not implemented" and return no value.
\<close>

theorem stubs_throw_not_implemented:
  "getZigZagMatrix n = Inl (Error ''Not implemented'') \<and>
   canDominoesMakeRow dominoes = Inl (Error ''Not implemented'') \<and>
   extractRanges nums = Inl (Error ''Not implemented'')"
  by (simp add: getZigZagMatrix_def canDominoesMakeRow_def extractRanges_def)

text \<open>
  C8: the documented result of getZigZagMatrix for \<open>n = 1\<close> is the matrix \<open>[[0]]\<close>; the
  body throws instead, so no matrix is returned there.
\<close>

theorem getZigZagMatrix_one_throws:
  "getZigZagMatrix (1 :: int) = Inl (Error ''Not implemented'') \<and>
   getZigZagMatrix (1 :: int) \<noteq> Inr [[0]]"
  by (simp add: getZigZagMatrix_def)

subsection \<open>Brace expansion: lists\<close>

lemma length_odometer: "length (odometer xss) = prod_list (map length xss)"
  by (induction xss) (simp_all add: length_concat comp_def sum_list_triv)

lemma length_expand_item: "length (expand_item v) = count_item v"
  by (induction v rule: count_item.induct)
     (simp_all add: length_concat comp_def length_odometer cong: map_cong)

lemma length_expand_arr: "length (expand_arr arr) = count_arr arr"
  by (simp add: expand_arr_def count_arr_def length_odometer comp_def length_expand_item)

lemma concat_map_nth_uniform:
  "(\<And>r. length (f r) = n) \<Longrightarrow> i < n \<Longrightarrow> k < length rs \<Longrightarrow>
   concat (map f rs) ! (i + n * k) = f (rs ! k) ! i"
proof (induction rs arbitrary: k)
  case Nil
  then show ?case by simp
next
  case (Cons r rs)
  show ?case
  proof (cases k)
    case 0
    with Cons.prems show ?thesis by (simp add: nth_append)
  next
    case (Suc j)
    with Cons.prems have "j < length rs" by simp
    from Cons.IH [OF Cons.prems(1) Cons.prems(2) this] Cons.prems Suc
    show ?thesis by (simp add: nth_append add.commute add.left_commute)
  qed
qed

lemma odometer_nth:
  "i < length xs \<Longrightarrow> k < length (odometer xss) \<Longrightarrow>
   odometer (xs # xss) ! (i + length xs * k) = xs ! i @ odometer xss ! k"
  using concat_map_nth_uniform [of "\<lambda>rest. map (\<lambda>x. x @ rest) xs" "length xs" i k "odometer xss"]
  by simp

lemma concat_nth_block:
  "p < length xss \<Longrightarrow> i < length (xss ! p) \<Longrightarrow>
   concat xss ! (length (concat (take p xss)) + i) = xss ! p ! i"
proof (induction xss arbitrary: p)
  case Nil
  then show ?case by simp
next
  case (Cons xs xss)
  show ?case
  proof (cases p)
    case 0
    with Cons.prems show ?thesis by (simp add: nth_append)
  next
    case (Suc q)
    with Cons.prems have "q < length xss" "i < length (xss ! q)" by simp_all
    from Cons.IH [OF this] Suc show ?thesis by (simp add: nth_append add.assoc)
  qed
qed

lemma expand_reset_item: "expand_item (reset_item v) = expand_item v"
  by (induction v rule: reset_item.induct) (simp_all add: comp_def cong: map_cong)

lemma count_reset_item: "count_item (reset_item v) = count_item v"
  by (induction v rule: reset_item.induct) (simp_all add: comp_def cong: map_cong)

lemma reset_reset_item: "reset_item (reset_item v) = reset_item v"
  by (induction v rule: reset_item.induct) (simp_all add: comp_def cong: map_cong)

lemma expand_arr_Nil: "expand_arr [] = [[]]"
  by (simp add: expand_arr_def)

lemma expand_arr_Cons: "expand_arr (v # arr) = odometer (expand_item v # map expand_item arr)"
  by (simp add: expand_arr_def)

lemma count_arr_Nil: "count_arr [] = 1"
  by (simp add: count_arr_def)

lemma count_arr_Cons: "count_arr (v # arr) = count_item v * count_arr arr"
  by (simp add: count_arr_def)

lemma index_arr_Nil: "index_arr [] = 0"
  by (simp add: index_arr_def)

lemma index_arr_Cons: "index_arr (v # arr) = index_item v + count_item v * index_arr arr"
  by (simp add: index_arr_def)

lemma ok_arr_Nil: "ok_arr []"
  by (simp add: ok_arr_def)

lemma ok_arr_Cons: "ok_arr (v # arr) = (ok_item v \<and> ok_arr arr)"
  by (simp add: ok_arr_def)

lemma expand_item_Variants: "expand_item (Variants vs p) = concat (map expand_arr vs)"
  by (simp add: expand_arr_def [abs_def])

lemma count_item_Variants: "count_item (Variants vs p) = sum_list (map count_arr vs)"
  by (simp add: count_arr_def [abs_def])

lemma index_item_Variants:
  "p < length vs \<Longrightarrow>
   index_item (Variants vs p) = sum_list (map count_arr (take p vs)) + index_arr (vs ! p)"
  by (simp add: index_arr_def)

lemma ok_item_Variants:
  "ok_item (Variants vs p) =
     (p < length vs \<and> (\<forall>branch \<in> set vs. ok_arr branch) \<and>
      (\<forall>i < length vs. i \<noteq> p \<longrightarrow> map reset_item (vs ! i) = vs ! i))"
  by (simp add: ok_arr_def)

lemma expand_reset_arr: "expand_arr (map reset_item arr) = expand_arr arr"
  by (simp add: expand_arr_def comp_def expand_reset_item)

lemma count_reset_arr: "count_arr (map reset_item arr) = count_arr arr"
  by (simp add: count_arr_def comp_def count_reset_item)

lemma ok_reset_item: "ok_item v \<Longrightarrow> ok_item (reset_item v)"
  by (induction v rule: reset_item.induct) (auto simp: reset_reset_item)

lemma ok_reset_arr: "ok_arr arr \<Longrightarrow> ok_arr (map reset_item arr)"
  by (auto simp: ok_arr_def ok_reset_item)

lemma index_fresh_item: "reset_item v = v \<Longrightarrow> index_item v = 0"
proof (induction v)
  case (Str s)
  then show ?case by simp
next
  case (Variants vs p)
  from Variants.prems have p: "p = 0" and vs: "map (map reset_item) vs = vs"
    by simp_all
  show ?case
  proof (cases vs)
    case Nil
    with p show ?thesis by simp
  next
    case (Cons b bs)
    with vs have b: "map reset_item b = b" by simp
    have "\<forall>v \<in> set b. index_item v = 0"
    proof
      fix v assume v: "v \<in> set b"
      with b have "reset_item v = v" by (metis map_eq_conv map_ident) 
      with Variants.IH [of b v] v Cons show "index_item v = 0" by simp
    qed
    then have "mixed_radix (map (\<lambda>v. (index_item v, count_item v)) b) = 0"
      by (induction b) simp_all
    with p Cons show ?thesis by simp
  qed
qed

lemma index_fresh_arr: "map reset_item arr = arr \<Longrightarrow> index_arr arr = 0"
proof (induction arr)
  case Nil
  then show ?case by (simp add: index_arr_Nil)
next
  case (Cons v arr)
  then show ?case by (simp add: index_arr_Cons index_fresh_item)
qed


declare expand_item.simps(2) [simp del] count_item.simps(2) [simp del]
  index_item.simps(2) [simp del] ok_item.simps(2) [simp del]

lemma mixed_radix_step: "i < n \<Longrightarrow> m < k \<Longrightarrow> i + n * m < n * (k :: nat)"
proof -
  assume i: "i < n" and m: "m < k"
  from m have "Suc m \<le> k" by simp
  then have "n * Suc m \<le> n * k" by (rule mult_le_mono2)
  with i show ?thesis by simp
qed

lemma sum_list_take_nth_le:
  "p < length (xs :: nat list) \<Longrightarrow> sum_list (take p xs) + xs ! p \<le> sum_list xs"
proof -
  assume p: "p < length xs"
  have "sum_list xs = sum_list (take p xs) + sum_list (drop p xs)"
    by (metis append_take_drop_id sum_list_append)
  also from p have "drop p xs = xs ! p # drop (Suc p) xs"
    by (simp add: Cons_nth_drop_Suc)
  finally show ?thesis by simp
qed

lemma sum_list_take_last:
  "Suc p = length (xs :: nat list) \<Longrightarrow> sum_list (take p xs) + xs ! p = sum_list xs"
proof -
  assume p: "Suc p = length xs"
  have "sum_list xs = sum_list (take p xs) + sum_list (drop p xs)"
    by (metis append_take_drop_id sum_list_append)
  also from p have "drop p xs = [xs ! p]"
    by (metis Cons_nth_drop_Suc drop_all le_refl lessI)
  finally show ?thesis by simp
qed

lemma index_less_count_item: "ok_item v \<Longrightarrow> index_item v < count_item v"
proof (induction v)
  case (Str s)
  then show ?case by simp
next
  case (Variants vs p)
  from Variants.prems have p: "p < length vs" and ok: "\<forall>branch \<in> set vs. ok_arr branch"
    by (simp_all add: ok_item_Variants)
  have arr: "ok_arr b \<Longrightarrow> set b \<subseteq> set (vs ! p) \<Longrightarrow> index_arr b < count_arr b" for b
  proof (induction b)
    case Nil
    then show ?case by (simp add: index_arr_Nil count_arr_Nil)
  next
    case (Cons v b)
    from Cons.prems p have "index_item v < count_item v"
      using Variants.IH [of "vs ! p" v] by (simp add: ok_arr_Cons)
    moreover from Cons have "index_arr b < count_arr b"
      by (simp add: ok_arr_Cons)
    ultimately show ?case
      by (simp add: index_arr_Cons count_arr_Cons mixed_radix_step)
  qed
  from p ok have "index_arr (vs ! p) < count_arr (vs ! p)"
    by (intro arr) simp_all
  moreover from p have "sum_list (take p (map count_arr vs)) + map count_arr vs ! p
      \<le> sum_list (map count_arr vs)"
    by (intro sum_list_take_nth_le) simp
  ultimately show ?case
    using p by (simp add: index_item_Variants count_item_Variants take_map)
qed

lemma index_less_count_arr: "ok_arr arr \<Longrightarrow> index_arr arr < count_arr arr"
proof (induction arr)
  case Nil
  then show ?case by (simp add: index_arr_Nil count_arr_Nil)
next
  case (Cons v arr)
  then show ?case
    by (simp add: ok_arr_Cons index_arr_Cons count_arr_Cons mixed_radix_step index_less_count_item)
qed


lemma expand_arr_Cons_nth:
  assumes "index_item v < count_item v" and "index_arr arr < count_arr arr"
  shows "expand_arr (v # arr) ! index_arr (v # arr) =
         expand_item v ! index_item v @ expand_arr arr ! index_arr arr"
  using assms
    odometer_nth [of "index_item v" "expand_item v" "index_arr arr" "map expand_item arr"]
  by (simp add: expand_arr_Cons index_arr_Cons length_expand_item)
     (simp add: expand_arr_def count_arr_def length_odometer comp_def length_expand_item)

lemma expand_item_Variants_nth:
  assumes "p < length vs" and "index_arr (vs ! p) < count_arr (vs ! p)"
  shows "expand_item (Variants vs p) ! index_item (Variants vs p) =
         expand_arr (vs ! p) ! index_arr (vs ! p)"
proof -
  have "length (concat (take p (map expand_arr vs))) = sum_list (map count_arr (take p vs))"
    by (simp add: length_concat take_map comp_def length_expand_arr)
  with assms concat_nth_block [of p "map expand_arr vs" "index_arr (vs ! p)"]
  show ?thesis
    by (simp add: expand_item_Variants index_item_Variants length_expand_arr)
qed

lemma current_correct:
  "ok_arr arr \<Longrightarrow> getArray_current arr = Some (expand_arr arr ! index_arr arr)"
  "ok_item (Variants vs p) \<Longrightarrow>
     getVariants_current vs p = Some (expand_item (Variants vs p) ! index_item (Variants vs p))"
proof (induction arr and vs p rule: getArray_current_getVariants_current.induct)
  case 1
  show ?case by (simp add: expand_arr_Nil index_arr_Nil)
next
  case (2 s arr)
  then have ok: "ok_arr arr" by (simp add: ok_arr_Cons)
  with "2.IH" have "getArray_current arr = Some (expand_arr arr ! index_arr arr)" .
  moreover have "expand_arr (Str s # arr) ! index_arr (Str s # arr) =
      expand_item (Str s) ! index_item (Str s) @ expand_arr arr ! index_arr arr"
    using ok by (intro expand_arr_Cons_nth index_less_count_arr) simp
  ultimately show ?case by simp
next
  case (3 vs p arr)
  then have okv: "ok_item (Variants vs p)" and ok: "ok_arr arr"
    by (simp_all add: ok_arr_Cons)
  from "3.IH"(1) [OF okv] have cur: "getVariants_current vs p =
      Some (expand_item (Variants vs p) ! index_item (Variants vs p))" .
  from "3.IH"(2) [OF cur ok]
  have "getArray_current arr = Some (expand_arr arr ! index_arr arr)" .
  moreover have "expand_arr (Variants vs p # arr) ! index_arr (Variants vs p # arr) =
      expand_item (Variants vs p) ! index_item (Variants vs p) @ expand_arr arr ! index_arr arr"
    using ok okv by (intro expand_arr_Cons_nth index_less_count_arr index_less_count_item)
  ultimately show ?case using cur by simp
next
  case (4 vs p)
  then have p: "p < length vs" and ok: "ok_arr (vs ! p)"
    by (simp_all add: ok_item_Variants)
  from "4.IH" [OF p ok] have "getArray_current (vs ! p) =
      Some (expand_arr (vs ! p) ! index_arr (vs ! p))" .
  with p ok show ?case
    by (simp add: expand_item_Variants_nth index_less_count_arr)
qed

subsection \<open>Brace expansion: one step of the enumeration\<close>

lemma next_post_arrE:
  assumes "next_post_arr arr r"
  obtains again arr' where "r = Some (again, arr')" "ok_arr arr'"
    "map reset_item arr' = map reset_item arr"
    "again \<Longrightarrow> index_arr arr' = Suc (index_arr arr)"
    "\<not> again \<Longrightarrow> Suc (index_arr arr) = count_arr arr"
    "\<not> again \<Longrightarrow> arr' = map reset_item arr"
  using assms by (auto simp: next_post_arr_def split: option.splits if_splits)

lemma next_post_itemE:
  assumes "next_post_item v r"
  obtains again v' where "r = Some (again, v')" "ok_item v'"
    "reset_item v' = reset_item v"
    "again \<Longrightarrow> index_item v' = Suc (index_item v)"
    "\<not> again \<Longrightarrow> Suc (index_item v) = count_item v"
    "\<not> again \<Longrightarrow> v' = reset_item v"
  using assms by (auto simp: next_post_item_def split: option.splits if_splits)

lemma count_item_reset_eq: "reset_item v' = reset_item v \<Longrightarrow> count_item v' = count_item v"
  by (metis count_reset_item)

lemma count_arr_reset_eq:
  "map reset_item arr' = map reset_item arr \<Longrightarrow> count_arr arr' = count_arr arr"
  by (metis count_reset_arr)

lemma getVariants_next_step:
  assumes ok: "ok_item (Variants vs p)"
    and post: "next_post_arr (vs ! p) (getArray_next (vs ! p))"
  shows "next_post_item (Variants vs p) (getVariants_next vs p)"
proof -
  from ok have p: "p < length vs" and oks: "\<forall>branch \<in> set vs. ok_arr branch"
    and fresh: "\<And>i. i < length vs \<Longrightarrow> i \<noteq> p \<Longrightarrow> map reset_item (vs ! i) = vs ! i"
    by (simp_all add: ok_item_Variants)
  from post obtain again b' where nx: "getArray_next (vs ! p) = Some (again, b')"
    and okb: "ok_arr b'" and rs: "map reset_item b' = map reset_item (vs ! p)"
    and adv: "again \<Longrightarrow> index_arr b' = Suc (index_arr (vs ! p))"
    and last: "\<not> again \<Longrightarrow> Suc (index_arr (vs ! p)) = count_arr (vs ! p)"
    and wrapped: "\<not> again \<Longrightarrow> b' = map reset_item (vs ! p)"
    by (rule next_post_arrE) blast
  let ?vs = "vs[p := b']"
  have oks': "\<forall>branch \<in> set ?vs. ok_arr branch"
    using oks okb set_update_subset_insert [of vs p b'] by auto
  have rs': "map (map reset_item) ?vs = map (map reset_item) vs"
    using p rs by (simp add: map_update list_update_same_conv)
  have cnt': "map count_arr ?vs = map count_arr vs"
    using p count_arr_reset_eq [OF rs] by (simp add: map_update list_update_same_conv)
  have idx: "index_item (Variants vs p) =
      sum_list (take p (map count_arr vs)) + index_arr (vs ! p)"
    using p by (simp add: index_item_Variants take_map)
  show ?thesis
  proof (cases again)
    case True
    have "ok_item (Variants ?vs p)"
      using p oks' fresh by (simp add: ok_item_Variants)
    moreover have "reset_item (Variants ?vs p) = reset_item (Variants vs p)"
      using rs' by simp
    moreover have "index_item (Variants ?vs p) = Suc (index_item (Variants vs p))"
      using p adv [OF True] idx by (simp add: index_item_Variants)
    ultimately show ?thesis
      using p nx True by (simp add: next_post_item_def)
  next
    case False
    note b' = wrapped [OF False]
    show ?thesis
    proof (cases "p + 1 < length vs")
      case True
      have "map reset_item (?vs ! i) = ?vs ! i" if "i < length vs" "i \<noteq> p + 1" for i
      proof (cases "i = p")
        case True
        with p b' show ?thesis by (simp add: comp_def reset_reset_item)
      next
        case False
        with that fresh show ?thesis by simp
      qed
      then have "ok_item (Variants ?vs (p + 1))"
        using True oks' by (simp add: ok_item_Variants)
      moreover have "reset_item (Variants ?vs (p + 1)) = reset_item (Variants vs p)"
        using rs' by simp
      moreover have "index_item (Variants ?vs (p + 1)) = Suc (index_item (Variants vs p))"
      proof -
        have "index_arr (vs ! Suc p) = 0"
          using True fresh [of "Suc p"] by (simp add: index_fresh_arr)
        moreover have "sum_list (take (Suc p) (map count_arr vs)) =
            sum_list (take p (map count_arr vs)) + count_arr (vs ! p)"
          using p by (simp add: take_Suc_conv_app_nth)
        ultimately show ?thesis
          using True cnt' last [OF False] idx
          by (simp add: index_item_Variants take_map [symmetric])
      qed
      ultimately show ?thesis
        using p nx False True by (simp add: next_post_item_def)
    next
      case last_branch: False
      with p have len: "Suc p = length vs" by simp
      have "?vs = map (map reset_item) vs"
      proof (rule nth_equalityI)
        show "length ?vs = length (map (map reset_item) vs)" by simp
      next
        fix i assume "i < length ?vs"
        then show "?vs ! i = map (map reset_item) vs ! i"
          using b' fresh [of i] by (cases "i = p") simp_all
      qed
      then have eq: "Variants ?vs 0 = reset_item (Variants vs p)" by simp
      moreover have "ok_item (reset_item (Variants vs p))"
        using ok by (rule ok_reset_item)
      moreover have "Suc (index_item (Variants vs p)) = count_item (Variants vs p)"
        using len last [OF False] idx sum_list_take_last [of p "map count_arr vs"]
        by (simp add: count_item_Variants)
      ultimately show ?thesis
        using p nx False last_branch
        by (simp add: next_post_item_def reset_reset_item del: reset_item.simps)
    qed
  qed
qed


lemma getArray_next_Nil_step: "next_post_arr [] (getArray_next [])"
  by (simp add: next_post_arr_def ok_arr_Nil index_arr_Nil count_arr_Nil)

lemma getArray_next_Str_step:
  assumes post: "next_post_arr arr (getArray_next arr)"
  shows "next_post_arr (Str s # arr) (getArray_next (Str s # arr))"
proof -
  from post obtain again arr' where "getArray_next arr = Some (again, arr')"
    and "ok_arr arr'" and "map reset_item arr' = map reset_item arr"
    and "again \<Longrightarrow> index_arr arr' = Suc (index_arr arr)"
    and "\<not> again \<Longrightarrow> Suc (index_arr arr) = count_arr arr"
    and "\<not> again \<Longrightarrow> arr' = map reset_item arr"
    by (rule next_post_arrE) blast
  then show ?thesis
    by (cases again) (simp_all add: next_post_arr_def ok_arr_Cons index_arr_Cons count_arr_Cons)
qed

lemma getArray_next_Variants_step:
  assumes postv: "next_post_item (Variants vs p) (getVariants_next vs p)"
    and post: "next_post_arr arr (getArray_next arr)"
    and ok: "ok_arr arr"
  shows "next_post_arr (Variants vs p # arr) (getArray_next (Variants vs p # arr))"
proof -
  from postv obtain again v' where nxv: "getVariants_next vs p = Some (again, v')"
    and okv: "ok_item v'" and rsv: "reset_item v' = reset_item (Variants vs p)"
    and advv: "again \<Longrightarrow> index_item v' = Suc (index_item (Variants vs p))"
    and lastv: "\<not> again \<Longrightarrow> Suc (index_item (Variants vs p)) = count_item (Variants vs p)"
    and wrappedv: "\<not> again \<Longrightarrow> v' = reset_item (Variants vs p)"
    by (rule next_post_itemE) blast
  note cntv = count_item_reset_eq [OF rsv]
  show ?thesis
  proof (cases again)
    case True
    with nxv okv rsv advv cntv ok show ?thesis
      by (simp add: next_post_arr_def ok_arr_Cons index_arr_Cons del: reset_item.simps)
  next
    case False
    from post obtain again' arr' where nx: "getArray_next arr = Some (again', arr')"
      and ok': "ok_arr arr'" and rs: "map reset_item arr' = map reset_item arr"
      and adv: "again' \<Longrightarrow> index_arr arr' = Suc (index_arr arr)"
      and last: "\<not> again' \<Longrightarrow> Suc (index_arr arr) = count_arr arr"
      and wrapped: "\<not> again' \<Longrightarrow> arr' = map reset_item arr"
      by (rule next_post_arrE) blast
    have zero: "index_item v' = 0"
      using wrappedv [OF False] by (intro index_fresh_item) (simp add: reset_reset_item del: reset_item.simps)
    show ?thesis
    proof (cases again')
      case True
      have "index_arr (v' # arr') = Suc (index_arr (Variants vs p # arr))"
        using zero cntv adv [OF True] lastv [OF False] by (simp add: index_arr_Cons)
      with nxv nx False True okv ok' rsv rs show ?thesis
        by (simp add: next_post_arr_def ok_arr_Cons del: reset_item.simps)
    next
      case last_one: False
      have "Suc (index_arr (Variants vs p # arr)) = count_arr (Variants vs p # arr)"
        using last [OF last_one] lastv [OF False]
        by (simp add: index_arr_Cons count_arr_Cons)
           (metis add_Suc mult_Suc_right)
      with nxv nx False last_one okv ok' rsv rs wrappedv [OF False] wrapped [OF last_one]
      show ?thesis
        by (simp add: next_post_arr_def ok_arr_Cons del: reset_item.simps)
    qed
  qed
qed

lemma next_correct:
  "ok_arr arr \<Longrightarrow> next_post_arr arr (getArray_next arr)"
  "ok_item (Variants vs p) \<Longrightarrow> next_post_item (Variants vs p) (getVariants_next vs p)"
proof (induction arr and vs p rule: getArray_next_getVariants_next.induct)
  case 1
  show ?case by (rule getArray_next_Nil_step)
next
  case (2 s arr)
  then show ?case by (intro getArray_next_Str_step) (simp add: ok_arr_Cons)
next
  case (3 vs p arr)
  then have okv: "ok_item (Variants vs p)" and ok: "ok_arr arr"
    by (simp_all add: ok_arr_Cons)
  from "3.IH"(1) [OF okv]
  have postv: "next_post_item (Variants vs p) (getVariants_next vs p)" .
  show ?case
  proof (cases "getVariants_next vs p")
    case None
    with postv show ?thesis by (simp add: next_post_item_def)
  next
    case (Some r)
    obtain again v' where r: "r = (again, v')" by (cases r)
    show ?thesis
    proof (cases again)
      case True
      with Some r postv show ?thesis
        by (auto simp: next_post_item_def next_post_arr_def ok_arr_Cons index_arr_Cons ok
            dest: count_item_reset_eq simp del: reset_item.simps)
    next
      case False
      with "3.IH"(2) [OF Some r [symmetric] _ ok]
      have "next_post_arr arr (getArray_next arr)" by simp
      with postv ok show ?thesis by (intro getArray_next_Variants_step)
    qed
  qed
next
  case (4 vs p)
  then have p: "p < length vs" and ok: "ok_arr (vs ! p)"
    by (simp_all add: ok_item_Variants)
  from "4.IH" [OF p ok] "4.prems" show ?case
    by (intro getVariants_next_step)
qed

lemma expand_arr_reset_eq:
  "map reset_item arr' = map reset_item arr \<Longrightarrow> expand_arr arr' = expand_arr arr"
  by (metis expand_reset_arr)

lemma generate_correct:
  "ok_arr arr \<Longrightarrow> generate arr = Some (drop (index_arr arr) (expand_arr arr))"
proof (induction "count_arr arr - index_arr arr" arbitrary: arr rule: less_induct)
  case less
  note ok = less.prems
  let ?e = "expand_arr arr" and ?i = "index_arr arr"
  have cur: "getArray_current arr = Some (?e ! ?i)"
    using ok by (rule current_correct)
  have bound: "?i < length ?e"
    using ok by (simp add: length_expand_arr index_less_count_arr)
  from next_correct(1) [OF ok] obtain again arr' where nx: "getArray_next arr = Some (again, arr')"
    and ok': "ok_arr arr'" and rs: "map reset_item arr' = map reset_item arr"
    and adv: "again \<Longrightarrow> index_arr arr' = Suc ?i"
    and last: "\<not> again \<Longrightarrow> Suc ?i = count_arr arr"
    by (rule next_post_arrE) blast
  show ?case
  proof (cases again)
    case True
    have "count_arr arr' - index_arr arr' < count_arr arr - ?i"
      using adv [OF True] count_arr_reset_eq [OF rs] bound by (simp add: length_expand_arr)
    from less.hyps [OF this ok']
    have "generate arr' = Some (drop (Suc ?i) ?e)"
      using adv [OF True] expand_arr_reset_eq [OF rs] by simp
    with cur nx True bound show ?thesis
      by (subst generate.simps) (simp add: Cons_nth_drop_Suc)
  next
    case False
    from last [OF False] have "Suc ?i = length ?e"
      by (simp add: length_expand_arr)
    then have "drop ?i ?e = [?e ! ?i]"
      by (metis Cons_nth_drop_Suc drop_all le_refl lessI)
    with cur nx False show ?thesis
      by (subst generate.simps) simp
  qed
qed

lemma getVariants_scan_nonempty: "getVariants_scan str acc v skip \<noteq> []"
  by (induction str arbitrary: acc v skip) simp_all

lemma getArray_fresh:
  "ok_arr (getArray str addEmpty) \<and>
   map reset_item (getArray str addEmpty) = getArray str addEmpty"
  "ok_item (getVariants str) \<and> reset_item (getVariants str) = getVariants str"
proof (induction str addEmpty and str rule: getArray_getVariants.induct)
  case (1 str addEmpty)
  let ?f = "\<lambda>seg. case seg of Text s \<Rightarrow> Str s | Braces s \<Rightarrow> getVariants s"
  have "ok_item (?f seg) \<and> reset_item (?f seg) = ?f seg"
    if "seg \<in> set (getArray_segments str addEmpty)" for seg
  proof (cases seg)
    case (Text s)
    then show ?thesis by simp
  next
    case (Braces s)
    with that "1.IH" show ?thesis by simp
  qed
  then show ?case
    by (subst (1 2 3) getArray.simps) (simp add: ok_arr_def map_idI)
next
  case (2 str)
  let ?pieces = "getVariants_scan str [] [] 0"
  have "?pieces \<noteq> []" by (rule getVariants_scan_nonempty)
  moreover have "\<forall>i < length ?pieces.
      map reset_item (getArray (?pieces ! i) True) = getArray (?pieces ! i) True"
    using "2.IH" by simp
  ultimately show ?case
    using "2.IH"
    by (subst (1 2 3) getVariants.simps) (simp add: ok_item_Variants map_idI)
qed

lemma expandBraces_expansions:
  "expandBraces str = Some (expand_arr (getArray str False))"
  using getArray_fresh(1) [of str False]
  by (simp add: expandBraces_def generate_correct index_fresh_arr)

subsection \<open>Brace expansion: parsing a balanced template\<close>

lemma depth_after_snoc:
  "depth_after d (v @ [c]) =
     (case depth_after d v of None \<Rightarrow> None | Some e \<Rightarrow> depth_after e [c])"
  by (induction v arbitrary: d) (auto split: nat.splits)

lemma getArray_scan_text:
  "depth_after d str = Some 0 \<Longrightarrow>
   getArray_scan str acc v (int d) = (acc', v') \<Longrightarrow>
   concat (map seg_text acc') @ v' =
     concat (map seg_text acc) @ (if d = 0 then [] else ''{'') @ v @ str"
proof (induction str arbitrary: d acc v)
  case Nil
  then show ?case by simp
next
  case (Cons c str)
  consider (closes) "c = CHR ''}''" | (opens) "c = CHR ''{''" | (other) "c \<noteq> CHR ''}''" "c \<noteq> CHR ''{''"
    by blast
  then show ?case
  proof cases
    case closes
    with Cons.prems obtain e where d: "d = Suc e" and e: "depth_after e str = Some 0"
      by (cases d) simp_all
    show ?thesis
    proof (cases e)
      case 0
      with Cons.prems closes d Cons.IH [OF e, of "acc @ [Braces v]" "[]"] show ?thesis
        by simp
    next
      case (Suc f)
      with Cons.prems closes d Cons.IH [OF e, of acc "v @ [c]"] show ?thesis
        by simp
    qed
  next
    case opens
    with Cons.prems have e: "depth_after (Suc d) str = Some 0" by simp
    show ?thesis
    proof (cases d)
      case 0
      with Cons.prems opens
        Cons.IH [OF e, of "if v \<noteq> [] then acc @ [Text v] else acc" "[]"]
      show ?thesis by (simp split: if_splits)
    next
      case (Suc f)
      with Cons.prems opens Cons.IH [OF e, of acc "v @ [c]"] show ?thesis
        by simp
    qed
  next
    case other
    with Cons.prems have e: "depth_after d str = Some 0" by simp
    with Cons.prems other Cons.IH [OF e, of acc "v @ [c]"] show ?thesis
      by simp
  qed
qed


lemma getArray_scan_balanced:
  "depth_after d str = Some 0 \<Longrightarrow>
   (0 < d \<Longrightarrow> depth_after 0 v = Some (d - 1)) \<Longrightarrow>
   (\<And>s. Braces s \<in> set acc \<Longrightarrow> balanced s) \<Longrightarrow>
   Braces s \<in> set (fst (getArray_scan str acc v (int d))) \<Longrightarrow> balanced s"
proof (induction str arbitrary: d acc v)
  case Nil
  then show ?case by simp
next
  case (Cons c str)
  consider (closes) "c = CHR ''}''" | (opens) "c = CHR ''{''"
    | (other) "c \<noteq> CHR ''}''" "c \<noteq> CHR ''{''"
    by blast
  then show ?case
  proof cases
    case closes
    with Cons.prems(1) obtain e where d: "d = Suc e" and e: "depth_after e str = Some 0"
      by (cases d) simp_all
    from Cons.prems(2) d have v: "depth_after 0 v = Some e" by simp
    show ?thesis
    proof (cases e)
      case 0
      with v have "balanced v" by (simp add: balanced_def)
      with Cons.prems(3) have "\<And>s. Braces s \<in> set (acc @ [Braces v]) \<Longrightarrow> balanced s"
        by auto
      with Cons.IH [OF e, of "[]" "acc @ [Braces v]"] Cons.prems(4) closes d 0
      show ?thesis by simp
    next
      case (Suc f)
      with v closes have "depth_after 0 (v @ [c]) = Some (e - 1)"
        by (simp add: depth_after_snoc)
      with Cons.IH [OF e, of "v @ [c]" acc] Cons.prems(3,4) closes d Suc
      show ?thesis by simp
    qed
  next
    case opens
    with Cons.prems(1) have e: "depth_after (Suc d) str = Some 0" by simp
    show ?thesis
    proof (cases d)
      case 0
      have "\<And>s. Braces s \<in> set (if v \<noteq> [] then acc @ [Text v] else acc) \<Longrightarrow> balanced s"
        using Cons.prems(3) by (auto split: if_splits)
      with Cons.IH [OF e, of "[]" "if v \<noteq> [] then acc @ [Text v] else acc"]
        Cons.prems(4) opens 0
      show ?thesis by simp
    next
      case (Suc f)
      with Cons.prems(2) opens have "depth_after 0 (v @ [c]) = Some (Suc d - 1)"
        by (simp add: depth_after_snoc)
      with Cons.IH [OF e, of "v @ [c]" acc] Cons.prems(3,4) opens Suc
      show ?thesis by simp
    qed
  next
    case other
    with Cons.prems(1) have e: "depth_after d str = Some 0" by simp
    from other Cons.prems(2) have "0 < d \<Longrightarrow> depth_after 0 (v @ [c]) = Some (d - 1)"
      by (simp add: depth_after_snoc)
    with Cons.IH [OF e, of "v @ [c]" acc] Cons.prems(3,4) other
    show ?thesis by simp
  qed
qed

lemma getArray_segments_text:
  assumes "balanced str"
  shows "concat (map seg_text (getArray_segments str addEmpty)) = str"
proof -
  obtain acc v where scan: "getArray_scan str [] [] 0 = (acc, v)"
    by (cases "getArray_scan str [] [] 0")
  with assms getArray_scan_text [of 0 str "[]" "[]" acc v]
  have "concat (map seg_text acc) @ v = str"
    by (simp add: balanced_def)
  with scan show ?thesis
    by (auto simp: getArray_segments_def)
qed

lemma getArray_segments_balanced:
  assumes "balanced str" and "Braces s \<in> set (getArray_segments str addEmpty)"
  shows "balanced s"
proof -
  obtain acc v where scan: "getArray_scan str [] [] 0 = (acc, v)"
    by (cases "getArray_scan str [] [] 0")
  with assms(2) have "Braces s \<in> set (fst (getArray_scan str [] [] (int 0)))"
    by (auto simp: getArray_segments_def split: if_splits)
  with assms(1) show ?thesis
    by (intro getArray_scan_balanced [of 0 str "[]" "[]" s]) (simp_all add: balanced_def)
qed

lemma getVariants_scan_acc:
  "getVariants_scan str acc v skip = acc @ getVariants_scan str [] v skip"
proof (induction str arbitrary: acc v skip)
  case Nil
  show ?case by simp
next
  case (Cons c str)
  show ?case
  proof (cases "c = CHR '','' \<and> skip = 0")
    case True
    with Cons [of "acc @ [v]" "[]" skip] Cons [of "[v]" "[]" skip] show ?thesis by simp
  next
    case False
    with Cons [of acc "v @ [c]"] show ?thesis by auto
  qed
qed

lemma join_Cons: "xs \<noteq> [] \<Longrightarrow> join (x # xs) = x @ '','' @ join xs"
  by (cases xs) simp_all

lemma getVariants_scan_join: "join (getVariants_scan str [] v skip) = v @ str"
proof (induction str arbitrary: v skip)
  case Nil
  show ?case by simp
next
  case (Cons c str)
  show ?case
  proof (cases "c = CHR '','' \<and> skip = 0")
    case True
    have "getVariants_scan (c # str) [] v skip = v # getVariants_scan str [] [] skip"
      using True getVariants_scan_acc [of str "[v]" "[]" skip] by simp
    with True Cons [of "[]" skip] show ?thesis
      by (simp add: join_Cons getVariants_scan_nonempty)
  next
    case False
    with Cons [of "v @ [c]"] show ?thesis by auto
  qed
qed

lemma getVariants_scan_balanced:
  "depth_after d str = Some 0 \<Longrightarrow> depth_after 0 v = Some d \<Longrightarrow>
   (\<And>s. s \<in> set acc \<Longrightarrow> balanced s) \<Longrightarrow>
   s \<in> set (getVariants_scan str acc v (int d)) \<Longrightarrow> balanced s"
proof (induction str arbitrary: d acc v)
  case Nil
  then show ?case by (auto simp: balanced_def)
next
  case (Cons c str)
  consider (comma) "c = CHR '',''" "d = 0" | (closes) "c = CHR ''}''" | (opens) "c = CHR ''{''"
    | (other) "c \<noteq> CHR ''}''" "c \<noteq> CHR ''{''" "\<not> (c = CHR '','' \<and> d = 0)"
    by blast
  then show ?case
  proof cases
    case comma
    with Cons.prems(1) have e: "depth_after 0 str = Some 0" by simp
    from comma Cons.prems(2) have "balanced v" by (simp add: balanced_def)
    with Cons.prems(3) have "\<And>s. s \<in> set (acc @ [v]) \<Longrightarrow> balanced s" by auto
    with Cons.IH [OF e, of "[]" "acc @ [v]"] Cons.prems(4) comma show ?thesis by simp
  next
    case closes
    with Cons.prems(1) obtain e where d: "d = Suc e" and e: "depth_after e str = Some 0"
      by (cases d) simp_all
    from Cons.prems(2) d closes have "depth_after 0 (v @ [c]) = Some e"
      by (simp add: depth_after_snoc)
    with Cons.IH [OF e, of "v @ [c]" acc] Cons.prems(3,4) closes d show ?thesis by simp
  next
    case opens
    with Cons.prems(1) have e: "depth_after (Suc d) str = Some 0" by simp
    from Cons.prems(2) opens have "depth_after 0 (v @ [c]) = Some (Suc d)"
      by (simp add: depth_after_snoc)
    with Cons.IH [OF e, of "v @ [c]" acc] Cons.prems(3,4) opens show ?thesis
      by (simp add: add.commute)
  next
    case other
    with Cons.prems(1) have e: "depth_after d str = Some 0" by simp
    from Cons.prems(2) other have "depth_after 0 (v @ [c]) = Some d"
      by (simp add: depth_after_snoc)
    with Cons.IH [OF e, of "v @ [c]" acc] Cons.prems(3,4) other show ?thesis by auto
  qed
qed

lemma unparse_getArray:
  "balanced str \<Longrightarrow> unparse_arr (getArray str addEmpty) = str"
  "balanced str \<Longrightarrow> unparse_item (getVariants str) = ''{'' @ str @ ''}''"
proof (induction str addEmpty and str rule: getArray_getVariants.induct)
  case (1 str addEmpty)
  let ?f = "\<lambda>seg. case seg of Text s \<Rightarrow> Str s | Braces s \<Rightarrow> getVariants s"
  have "unparse_item (?f seg) = seg_text seg"
    if "seg \<in> set (getArray_segments str addEmpty)" for seg
  proof (cases seg)
    case (Text s)
    then show ?thesis by simp
  next
    case (Braces s)
    with that "1.prems" have "balanced s"
      using getArray_segments_balanced by blast
    with "1.IH" [OF that Braces] Braces show ?thesis by simp
  qed
  then have same: "map (unparse_item \<circ> ?f) (getArray_segments str addEmpty) =
      map seg_text (getArray_segments str addEmpty)"
    by simp
  have "unparse_arr (getArray str addEmpty) =
      concat (map (unparse_item \<circ> ?f) (getArray_segments str addEmpty))"
    by (subst getArray.simps) (simp add: unparse_arr_def)
  also have "\<dots> = concat (map seg_text (getArray_segments str addEmpty))"
    by (simp only: same)
  also have "\<dots> = str"
    using "1.prems" by (rule getArray_segments_text)
  finally show ?case .
next
  case (2 str)
  let ?pieces = "getVariants_scan str [] [] 0"
  have "unparse_arr (getArray s True) = s" if "s \<in> set ?pieces" for s
  proof -
    from that "2.prems" have "balanced s"
      using getVariants_scan_balanced [of 0 str "[]" "[]" s] by (simp add: balanced_def)
    with "2.IH" [OF that] show ?thesis .
  qed
  then have "map (\<lambda>s. unparse_arr (getArray s True)) ?pieces = ?pieces"
    by (simp add: map_idI)
  then show ?case
    by (subst getVariants.simps)
       (simp add: comp_def unparse_arr_def [symmetric] getVariants_scan_join)
qed

lemma getArray_scan_no_braces:
  "CHR ''{'' \<notin> set str \<Longrightarrow> CHR ''}'' \<notin> set str \<Longrightarrow>
   getArray_scan str acc v skip = (acc, v @ str)"
  by (induction str arbitrary: v) auto

lemma getArray_no_braces:
  assumes "CHR ''{'' \<notin> set str" "CHR ''}'' \<notin> set str"
  shows "getArray str False = (if str = [] then [] else [Str str])"
  using getArray_scan_no_braces [OF assms, of "[]" "[]" 0]
  by (subst getArray.simps) (simp add: getArray_segments_def)

subsection \<open>Brace expansion: the parser on a written template tree\<close>

lemma cat_Nil_right: "cat xs [] = []"
  by (simp add: cat_def)

lemma cat_Cons_right: "cat xs (y # ys) = map (\<lambda>x. x @ y) xs @ cat xs ys"
  by (simp add: cat_def)

lemma cat_append_right: "cat xs (ys @ zs) = cat xs ys @ cat xs zs"
  by (simp add: cat_def)

lemma cat_unit_left: "cat [[]] ys = ys"
  by (induction ys) (simp_all add: cat_Nil_right cat_Cons_right)

lemma cat_unit_right: "cat xs [[]] = xs"
  by (simp add: cat_def)

lemma cat_single: "cat [x] [y] = [x @ y]"
  by (simp add: cat_def)

lemma map_append_cat: "map (\<lambda>x. x @ z) (cat xs ys) = cat xs (map (\<lambda>y. y @ z) ys)"
  by (induction ys) (simp_all add: cat_Nil_right cat_Cons_right)

lemma cat_assoc: "cat (cat xs ys) zs = cat xs (cat ys zs)"
  by (induction zs)
     (simp_all add: cat_Nil_right cat_Cons_right cat_append_right map_append_cat)

lemma odometer_Cons_cat: "odometer (xs # xss) = cat xs (odometer xss)"
  by (simp add: cat_def)

lemma odometer_append: "odometer (xss @ yss) = cat (odometer xss) (odometer yss)"
proof (induction xss)
  case Nil
  show ?case by (simp add: cat_unit_left)
next
  case (Cons xs xss)
  then show ?case
    by (simp only: append_Cons odometer_Cons_cat cat_assoc)
qed

lemma depth_after_append:
  "depth_after d (x @ y) = (case depth_after d x of None \<Rightarrow> None | Some e \<Rightarrow> depth_after e y)"
  by (induction x arbitrary: d) (auto split: nat.splits)

lemma depth_after_shift:
  "depth_after d x = Some e \<Longrightarrow> depth_after (d + k) x = Some (e + k)"
proof (induction x arbitrary: d)
  case Nil
  then show ?case by simp
next
  case (Cons c x)
  from Cons.IH [of "Suc d"] Cons.IH [of d] Cons.IH [of "d - 1"] Cons.prems
  show ?case by (cases d) (auto split: if_splits)
qed

lemma depth_after_plain_text:
  "CHR ''{'' \<notin> set s \<Longrightarrow> CHR ''}'' \<notin> set s \<Longrightarrow> depth_after d s = Some d"
  by (induction s) auto

lemma depth_after_join:
  "(\<And>x. x \<in> set xs \<Longrightarrow> depth_after d x = Some d) \<Longrightarrow> depth_after d (join xs) = Some d"
  by (induction xs rule: join.induct) (simp_all add: depth_after_append)

lemma depth_after_concat:
  "(\<And>x. x \<in> set xs \<Longrightarrow> depth_after d x = Some d) \<Longrightarrow> depth_after d (concat xs) = Some d"
  by (induction xs) (simp_all add: depth_after_append)

lemma depth_after_unparse_item: "plain_item g v \<Longrightarrow> depth_after d (unparse_item v) = Some d"
proof (induction v arbitrary: g d)
  case (Str s)
  then show ?case by (simp add: depth_after_plain_text)
next
  case (Variants vs p)
  from Variants.prems
  have pl: "\<And>branch v. branch \<in> set vs \<Longrightarrow> v \<in> set branch \<Longrightarrow> plain_item True v"
    by simp
  have "depth_after (Suc d) (concat (map unparse_item branch)) = Some (Suc d)"
    if "branch \<in> set vs" for branch
  proof (rule depth_after_concat)
    fix x assume "x \<in> set (map unparse_item branch)"
    then obtain v where "v \<in> set branch" "x = unparse_item v" by auto
    with that Variants.IH [OF that _ pl [OF that]] show "depth_after (Suc d) x = Some (Suc d)"
      by simp
  qed
  then have "depth_after (Suc d) (join (map (\<lambda>branch. concat (map unparse_item branch)) vs))
      = Some (Suc d)"
    by (intro depth_after_join) auto
  then show ?case by (simp add: depth_after_append)
qed

lemma depth_after_unparse_arr: "plain_arr g arr \<Longrightarrow> depth_after d (unparse_arr arr) = Some d"
  unfolding unparse_arr_def plain_arr_def
  by (intro depth_after_concat) (auto simp: depth_after_unparse_item)

lemma getArray_scan_text_append:
  "CHR ''{'' \<notin> set s \<Longrightarrow> CHR ''}'' \<notin> set s \<Longrightarrow>
   getArray_scan (s @ rest) acc v skip = getArray_scan rest acc (v @ s) skip"
  by (induction s arbitrary: v) auto

lemma getArray_scan_inside:
  "depth_after d x = Some e \<Longrightarrow>
   getArray_scan (x @ rest) acc v (int d + 1) = getArray_scan rest acc (v @ x) (int e + 1)"
proof (induction x arbitrary: d v)
  case Nil
  then show ?case by simp
next
  case (Cons c x)
  consider (closes) "c = CHR ''}''" | (opens) "c = CHR ''{''"
    | (other) "c \<noteq> CHR ''}''" "c \<noteq> CHR ''{''"
    by blast
  then show ?case
  proof cases
    case closes
    with Cons.prems obtain d' where d: "d = Suc d'" and "depth_after d' x = Some e"
      by (cases d) simp_all
    from Cons.IH [OF this(2), of "v @ [c]"] closes d show ?thesis
      by (simp add: add.commute)
  next
    case opens
    with Cons.prems have "depth_after (Suc d) x = Some e" by simp
    from Cons.IH [OF this, of "v @ [c]"] opens show ?thesis
      by (simp add: add.commute)
  next
    case other
    with Cons.prems have "depth_after d x = Some e" by simp
    from Cons.IH [OF this, of "v @ [c]"] other show ?thesis by simp
  qed
qed

lemma getArray_scan_group:
  assumes "balanced c"
  shows "getArray_scan (''{'' @ c @ ''}'' @ rest) acc v 0 =
         getArray_scan rest ((if v \<noteq> [] then acc @ [Text v] else acc) @ [Braces c]) [] 0"
proof -
  from assms have "depth_after 0 c = Some 0" by (simp add: balanced_def)
  from getArray_scan_inside [OF this, of "''}'' @ rest" _ "[]"]
  show ?thesis by simp
qed

lemma balanced_group_text:
  assumes "plain_item g (Variants vs p)"
  shows "balanced (join (map unparse_arr vs))"
proof -
  from assms have "plain_arr True branch" if "branch \<in> set vs" for branch
    using that by (simp add: plain_arr_def)
  then have "depth_after 0 x = Some 0" if "x \<in> set (map unparse_arr vs)" for x
    using that by (auto intro: depth_after_unparse_arr)
  then have "depth_after 0 (join (map unparse_arr vs)) = Some 0"
    by (rule depth_after_join)
  then show ?thesis by (simp add: balanced_def)
qed

lemma unparse_arr_Cons: "unparse_arr (v # arr) = unparse_item v @ unparse_arr arr"
  by (simp add: unparse_arr_def)

lemma unparse_item_Variants:
  "unparse_item (Variants vs p) = ''{'' @ join (map unparse_arr vs) @ ''}''"
  by (simp add: unparse_arr_def [abs_def])

lemma getArray_scan_feed:
  "plain_arr g arr \<Longrightarrow>
   getArray_scan (unparse_arr arr @ rest) acc v 0 =
     (case feed arr acc v of (acc', v') \<Rightarrow> getArray_scan rest acc' v' 0)"
proof (induction arr acc v rule: feed.induct)
  case (1 acc v)
  show ?case by (simp add: unparse_arr_def)
next
  case (2 s arr acc v)
  then have "plain_arr g arr" and "CHR ''{'' \<notin> set s" "CHR ''}'' \<notin> set s"
    by (simp_all add: plain_arr_def)
  with "2.IH" show ?case
    by (simp add: unparse_arr_Cons getArray_scan_text_append)
next
  case (3 vs p arr acc v)
  then have arr: "plain_arr g arr" and v: "plain_item g (Variants vs p)"
    by (simp_all add: plain_arr_def)
  from getArray_scan_group [OF balanced_group_text [OF v]] "3.IH" [OF arr]
  show ?case
    by (simp add: unparse_arr_Cons unparse_item_Variants del: unparse_item.simps)
qed

lemma expand_arr_Cons_cat: "expand_arr (v # arr) = cat (expand_item v) (expand_arr arr)"
  by (simp add: expand_arr_def cat_def)

lemma cat_single_left: "cat [x] (cat [y] zs) = cat [x @ y] zs"
  by (simp add: cat_assoc [symmetric] cat_single)

lemma feed_expand:
  "\<forall>v \<in> set arr. parsed_ok v \<Longrightarrow> feed arr acc v = (acc', v') \<Longrightarrow>
   cat (odometer (map seg_expand acc')) [v'] =
     cat (cat (odometer (map seg_expand acc)) [v]) (expand_arr arr)"
proof (induction arr acc v rule: feed.induct)
  case (1 acc v)
  then show ?case by (simp add: expand_arr_Nil cat_unit_right)
next
  case (2 s arr acc v)
  then have "cat (odometer (map seg_expand acc')) [v'] =
      cat (cat (odometer (map seg_expand acc)) [v @ s]) (expand_arr arr)"
    by simp
  then show ?case
    by (simp only: expand_arr_Cons_cat expand_item.simps cat_assoc cat_single_left)
next
  case (3 vs p arr acc v)
  let ?acc = "(if v \<noteq> [] then acc @ [Text v] else acc) @ [Braces (join (map unparse_arr vs))]"
  from "3.prems" have ok: "seg_expand (Braces (join (map unparse_arr vs))) = expand_item (Variants vs p)"
    by (simp add: seg_expand_def)
  have lit: "seg_expand (Text v) = [v]" by (simp add: seg_expand_def)
  have "odometer (map seg_expand ?acc) =
      cat (cat (odometer (map seg_expand acc)) [v]) (expand_item (Variants vs p))"
    by (cases "v = []")
       (simp_all add: odometer_append ok lit odometer_Cons_cat cat_unit_right cat_assoc
          del: odometer.simps(2))
  moreover from "3.IH" "3.prems" have "cat (odometer (map seg_expand acc')) [v'] =
      cat (cat (odometer (map seg_expand ?acc)) [[]]) (expand_arr arr)"
    by simp
  ultimately show ?case
    by (simp only: expand_arr_Cons_cat cat_assoc cat_unit_right cat_unit_left)
qed

lemma expand_getArray_segments:
  "expand_arr (getArray str addEmpty) = odometer (map seg_expand (getArray_segments str addEmpty))"
  by (subst getArray.simps) (simp add: expand_arr_def seg_expand_def [abs_def] comp_def)

lemma expand_getArray_unparse:
  assumes plain: "plain_arr g arr" and ok: "\<forall>v \<in> set arr. parsed_ok v"
  shows "expand_arr (getArray (unparse_arr arr) addEmpty) = expand_arr arr"
proof -
  obtain acc' v' where fd: "feed arr [] [] = (acc', v')"
    by (cases "feed arr [] []")
  from getArray_scan_feed [OF plain, of "[]" "[]" "[]"] fd
  have scan: "getArray_scan (unparse_arr arr) [] [] 0 = (acc', v')" by simp
  from feed_expand [OF ok fd]
  have sem: "cat (odometer (map seg_expand acc')) [v'] = expand_arr arr"
    by (simp add: cat_unit_left)
  have "odometer (map seg_expand (getArray_segments (unparse_arr arr) addEmpty)) =
      cat (odometer (map seg_expand acc')) [v']"
  proof (cases "v' \<noteq> [] \<or> addEmpty")
    case True
    with scan show ?thesis
      by (simp add: getArray_segments_def odometer_append seg_expand_def
          odometer_Cons_cat cat_unit_right del: odometer.simps(2))
  next
    case False
    with scan show ?thesis
      by (simp add: getArray_segments_def cat_unit_right)
  qed
  with sem show ?thesis by (simp add: expand_getArray_segments)
qed

lemma getVariants_scan_inside:
  "depth_after d x = Some e \<Longrightarrow>
   getVariants_scan (x @ rest) acc w (int d + 1) = getVariants_scan rest acc (w @ x) (int e + 1)"
proof (induction x arbitrary: d w)
  case Nil
  then show ?case by simp
next
  case (Cons c x)
  consider (closes) "c = CHR ''}''" | (opens) "c = CHR ''{''"
    | (other) "c \<noteq> CHR ''}''" "c \<noteq> CHR ''{''"
    by blast
  then show ?case
  proof cases
    case closes
    with Cons.prems obtain d' where d: "d = Suc d'" and "depth_after d' x = Some e"
      by (cases d) simp_all
    from Cons.IH [OF this(2), of "w @ [c]"] closes d show ?thesis
      by (simp add: add.commute)
  next
    case opens
    with Cons.prems have "depth_after (Suc d) x = Some e" by simp
    from Cons.IH [OF this, of "w @ [c]"] opens show ?thesis
      by (simp add: add.commute)
  next
    case other
    with Cons.prems have "depth_after d x = Some e" by simp
    from Cons.IH [OF this, of "w @ [c]"] other show ?thesis by simp
  qed
qed

lemma getVariants_scan_text_append:
  "CHR ''{'' \<notin> set s \<Longrightarrow> CHR ''}'' \<notin> set s \<Longrightarrow> CHR '','' \<notin> set s \<Longrightarrow>
   getVariants_scan (s @ rest) acc w skip = getVariants_scan rest acc (w @ s) skip"
  by (induction s arbitrary: w) auto

lemma getVariants_scan_group:
  assumes "balanced c"
  shows "getVariants_scan (''{'' @ c @ ''}'' @ rest) acc w 0 =
         getVariants_scan rest acc (w @ ''{'' @ c @ ''}'') 0"
proof -
  from assms have "depth_after 0 c = Some 0" by (simp add: balanced_def)
  from getVariants_scan_inside [OF this, of "''}'' @ rest" acc "w @ ''{''"]
  show ?thesis by simp
qed

lemma getVariants_scan_branch:
  "plain_arr True branch \<Longrightarrow>
   getVariants_scan (unparse_arr branch @ rest) acc w 0 =
     getVariants_scan rest acc (w @ unparse_arr branch) 0"
proof (induction branch arbitrary: w)
  case Nil
  show ?case by (simp add: unparse_arr_def)
next
  case (Cons v branch)
  then have rest: "plain_arr True branch" and v: "plain_item True v"
    by (simp_all add: plain_arr_def)
  show ?case
  proof (cases v)
    case (Str s)
    with v Cons.IH [OF rest, of "w @ s"] show ?thesis
      by (simp add: unparse_arr_Cons getVariants_scan_text_append)
  next
    case (Variants vs p)
    with v have "balanced (join (map unparse_arr vs))"
      using balanced_group_text by blast
    from getVariants_scan_group [OF this] Cons.IH [OF rest] Variants show ?thesis
      by (simp add: unparse_arr_Cons unparse_item_Variants del: unparse_item.simps)
  qed
qed

lemma getVariants_scan_unparse:
  "vs \<noteq> [] \<Longrightarrow> \<forall>branch \<in> set vs. plain_arr True branch \<Longrightarrow>
   getVariants_scan (join (map unparse_arr vs)) acc [] 0 = acc @ map unparse_arr vs"
proof (induction vs arbitrary: acc)
  case Nil
  then show ?case by simp
next
  case (Cons branch vs)
  then have b: "plain_arr True branch" by simp
  show ?case
  proof (cases vs)
    case Nil
    with getVariants_scan_branch [OF b, of "[]" acc "[]"] show ?thesis by simp
  next
    case (Cons branch' vs')
    with Cons.prems Cons.IH [of "acc @ [unparse_arr branch]"]
    have "getVariants_scan (join (map unparse_arr vs)) (acc @ [unparse_arr branch]) [] 0 =
        acc @ unparse_arr branch # map unparse_arr vs"
      by simp
    with getVariants_scan_branch [OF b, of "'','' @ join (map unparse_arr vs)" acc "[]"] Cons
    show ?thesis by simp
  qed
qed

lemma parsed_ok_plain: "plain_item g v \<Longrightarrow> parsed_ok v"
proof (induction v arbitrary: g)
  case (Str s)
  show ?case by simp
next
  case (Variants vs p)
  from Variants.prems have ne: "vs \<noteq> []"
    and pl: "\<And>branch v. branch \<in> set vs \<Longrightarrow> v \<in> set branch \<Longrightarrow> plain_item True v"
    by simp_all
  then have plb: "\<forall>branch \<in> set vs. plain_arr True branch"
    by (simp add: plain_arr_def)
  have "expand_arr (getArray (unparse_arr branch) True) = expand_arr branch"
    if "branch \<in> set vs" for branch
  proof (rule expand_getArray_unparse)
    from plb that show "plain_arr True branch" by simp
    from Variants.IH [OF that _ pl [OF that]] show "\<forall>v \<in> set branch. parsed_ok v"
      by simp
  qed
  then have "map (\<lambda>branch. expand_arr (getArray (unparse_arr branch) True)) vs =
      map expand_arr vs"
    by simp
  moreover have "getVariants (join (map unparse_arr vs)) =
      Variants (map (\<lambda>s. getArray s True) (map unparse_arr vs)) 0"
    using getVariants_scan_unparse [OF ne plb, of "[]"]
    by (subst getVariants.simps) simp
  ultimately show ?case
    by (simp add: expand_item_Variants comp_def cong: map_cong)
qed

lemma expand_getArray_plain:
  "plain_arr g arr \<Longrightarrow> expand_arr (getArray (unparse_arr arr) addEmpty) = expand_arr arr"
  by (rule expand_getArray_unparse) (auto simp: plain_arr_def intro: parsed_ok_plain)

lemma expandBraces_unparse:
  "plain_arr g arr \<Longrightarrow> expandBraces (unparse_arr arr) = Some (expand_arr arr)"
  by (simp add: expandBraces_expansions expand_getArray_plain)

subsection \<open>Brace expansion: the parse of a balanced template is plain\<close>

lemma top_comma_free_snoc:
  "depth_after a v = Some d \<Longrightarrow>
   top_comma_free a (v @ [c]) = (top_comma_free a v \<and> (c = CHR '','' \<longrightarrow> d \<noteq> 0))"
proof (induction v arbitrary: a)
  case Nil
  then show ?case by simp
next
  case (Cons x v)
  from Cons.IH [of "Suc a"] Cons.IH [of a] Cons.IH [of "a - 1"] Cons.prems
  show ?case by (cases a) (auto split: if_splits)
qed

lemma getArray_scan_plain:
  "depth_after d str = Some 0 \<Longrightarrow> (g \<longrightarrow> top_comma_free d str) \<Longrightarrow>
   (d = 0 \<longrightarrow> plain_item g (Str v)) \<Longrightarrow>
   (\<forall>s. Text s \<in> set acc \<longrightarrow> plain_item g (Str s)) \<Longrightarrow>
   getArray_scan str acc v (int d) = (acc', v') \<Longrightarrow>
   (\<forall>s. Text s \<in> set acc' \<longrightarrow> plain_item g (Str s)) \<and> plain_item g (Str v')"
proof (induction str arbitrary: d acc v)
  case Nil
  then show ?case by simp
next
  case (Cons c str)
  note scan = Cons.prems(5)
  consider (closes) "c = CHR ''}''" | (opens) "c = CHR ''{''"
    | (other) "c \<noteq> CHR ''}''" "c \<noteq> CHR ''{''"
    by blast
  then show ?case
  proof cases
    case closes
    with Cons.prems(1) obtain e where d: "d = Suc e" and e: "depth_after e str = Some 0"
      by (cases d) simp_all
    from Cons.prems(2) closes d have tc: "g \<longrightarrow> top_comma_free e str" by simp
    show ?thesis
    proof (cases e)
      case 0
      from scan closes d 0
      have "getArray_scan str (acc @ [Braces v]) [] (int e) = (acc', v')" by simp
      moreover have "e = 0 \<longrightarrow> plain_item g (Str [])" by simp
      moreover from Cons.prems(4)
      have "\<forall>s. Text s \<in> set (acc @ [Braces v]) \<longrightarrow> plain_item g (Str s)" by simp
      ultimately show ?thesis
        using Cons.IH [OF e tc] by blast
    next
      case (Suc f)
      from scan closes d Suc
      have "getArray_scan str acc (v @ [c]) (int e) = (acc', v')" by simp
      moreover from Suc have "e = 0 \<longrightarrow> plain_item g (Str (v @ [c]))" by simp
      ultimately show ?thesis
        using Cons.IH [OF e tc] Cons.prems(4) by blast
    qed
  next
    case opens
    with Cons.prems(1) have e: "depth_after (Suc d) str = Some 0" by simp
    from Cons.prems(2) opens have tc: "g \<longrightarrow> top_comma_free (Suc d) str" by simp
    have nz: "Suc d = 0 \<longrightarrow> plain_item g (Str w)" for w by simp
    show ?thesis
    proof (cases d)
      case 0
      from scan opens 0
      have "getArray_scan str (if v \<noteq> [] then acc @ [Text v] else acc) [] (int (Suc d)) =
          (acc', v')"
        by simp
      moreover from 0 Cons.prems(3,4)
      have "\<forall>s. Text s \<in> set (if v \<noteq> [] then acc @ [Text v] else acc) \<longrightarrow>
          plain_item g (Str s)"
        by auto
      ultimately show ?thesis
        using Cons.IH [OF e tc nz] by blast
    next
      case (Suc f)
      from scan opens Suc
      have "getArray_scan str acc (v @ [c]) (int (Suc d)) = (acc', v')"
        by (simp add: add.commute)
      then show ?thesis
        using Cons.IH [OF e tc nz] Cons.prems(4) by blast
    qed
  next
    case other
    with Cons.prems(1) have e: "depth_after d str = Some 0" by simp
    from Cons.prems(2) other have tc: "g \<longrightarrow> top_comma_free d str" by simp
    from scan other have "getArray_scan str acc (v @ [c]) (int d) = (acc', v')" by simp
    moreover from Cons.prems(2,3) other have "d = 0 \<longrightarrow> plain_item g (Str (v @ [c]))"
      by auto
    ultimately show ?thesis
      using Cons.IH [OF e tc] Cons.prems(4) by blast
  qed
qed

lemma getArray_segments_plain:
  assumes "balanced str" and "g \<longrightarrow> top_comma_free 0 str"
    and "Text s \<in> set (getArray_segments str addEmpty)"
  shows "plain_item g (Str s)"
proof -
  obtain acc v where scan: "getArray_scan str [] [] (int 0) = (acc, v)"
    by (cases "getArray_scan str [] [] (int 0)")
  from assms(1) have "depth_after 0 str = Some 0" by (simp add: balanced_def)
  from getArray_scan_plain [OF this assms(2) _ _ scan]
  have "(\<forall>s. Text s \<in> set acc \<longrightarrow> plain_item g (Str s)) \<and> plain_item g (Str v)"
    by simp
  with scan assms(3) show ?thesis
    by (auto simp: getArray_segments_def split: if_splits)
qed

lemma getVariants_scan_comma_free:
  "depth_after d str = Some 0 \<Longrightarrow> depth_after 0 v = Some d \<Longrightarrow> top_comma_free 0 v \<Longrightarrow>
   (\<And>s. s \<in> set acc \<Longrightarrow> top_comma_free 0 s) \<Longrightarrow>
   s \<in> set (getVariants_scan str acc v (int d)) \<Longrightarrow> top_comma_free 0 s"
proof (induction str arbitrary: d acc v)
  case Nil
  then show ?case by auto
next
  case (Cons c str)
  consider (comma) "c = CHR '',''" "d = 0" | (closes) "c = CHR ''}''" | (opens) "c = CHR ''{''"
    | (other) "c \<noteq> CHR ''}''" "c \<noteq> CHR ''{''" "\<not> (c = CHR '','' \<and> d = 0)"
    by blast
  then show ?case
  proof cases
    case comma
    with Cons.prems(1) have e: "depth_after 0 str = Some 0" by simp
    from Cons.prems(3,4) have "\<And>s. s \<in> set (acc @ [v]) \<Longrightarrow> top_comma_free 0 s" by auto
    with Cons.IH [OF e, of "[]" "acc @ [v]"] Cons.prems(5) comma show ?thesis by simp
  next
    case closes
    with Cons.prems(1) obtain e where d: "d = Suc e" and e: "depth_after e str = Some 0"
      by (cases d) simp_all
    from Cons.prems(2) d closes have "depth_after 0 (v @ [c]) = Some e"
      by (simp add: depth_after_snoc)
    moreover from Cons.prems(2,3) closes have "top_comma_free 0 (v @ [c])"
      by (simp add: top_comma_free_snoc)
    ultimately show ?thesis
      using Cons.IH [OF e, of "v @ [c]" acc] Cons.prems(4,5) closes d by simp
  next
    case opens
    with Cons.prems(1) have e: "depth_after (Suc d) str = Some 0" by simp
    from Cons.prems(2) opens have "depth_after 0 (v @ [c]) = Some (Suc d)"
      by (simp add: depth_after_snoc)
    moreover from Cons.prems(2,3) opens have "top_comma_free 0 (v @ [c])"
      by (simp add: top_comma_free_snoc)
    ultimately show ?thesis
      using Cons.IH [OF e, of "v @ [c]" acc] Cons.prems(4,5) opens
      by (simp add: add.commute)
  next
    case other
    with Cons.prems(1) have e: "depth_after d str = Some 0" by simp
    from Cons.prems(2) other have "depth_after 0 (v @ [c]) = Some d"
      by (simp add: depth_after_snoc)
    moreover from Cons.prems(2,3) other have "top_comma_free 0 (v @ [c])"
      by (auto simp: top_comma_free_snoc)
    ultimately show ?thesis
      using Cons.IH [OF e, of "v @ [c]" acc] Cons.prems(4,5) other by auto
  qed
qed

lemma plain_getArray:
  "balanced str \<Longrightarrow> (addEmpty \<longrightarrow> top_comma_free 0 str) \<Longrightarrow>
   plain_arr addEmpty (getArray str addEmpty)"
  "balanced str \<Longrightarrow> plain_item True (getVariants str) \<and> plain_item False (getVariants str)"
proof (induction str addEmpty and str rule: getArray_getVariants.induct)
  case (1 str addEmpty)
  let ?f = "\<lambda>seg. case seg of Text s \<Rightarrow> Str s | Braces s \<Rightarrow> getVariants s"
  have "plain_item addEmpty (?f seg)"
    if "seg \<in> set (getArray_segments str addEmpty)" for seg
  proof (cases seg)
    case (Text s)
    with that "1.prems" show ?thesis
      using getArray_segments_plain [of str addEmpty s addEmpty] by simp
  next
    case (Braces s)
    with that "1.prems" have "balanced s"
      using getArray_segments_balanced by blast
    with "1.IH" [OF that Braces] Braces show ?thesis
      by (cases addEmpty) simp_all
  qed
  then show ?case
    by (subst getArray.simps) (simp add: plain_arr_def)
next
  case (2 str)
  let ?pieces = "getVariants_scan str [] [] 0"
  have "plain_arr True (getArray s True)" if "s \<in> set ?pieces" for s
  proof -
    from that "2.prems" have "balanced s"
      using getVariants_scan_balanced [of 0 str "[]" "[]" s] by (simp add: balanced_def)
    moreover from that "2.prems" have "top_comma_free 0 s"
      using getVariants_scan_comma_free [of 0 str "[]" "[]" s] by (simp add: balanced_def)
    ultimately show ?thesis
      using "2.IH" [OF that] by simp
  qed
  then show ?case
    by (subst (1 2) getVariants.simps)
       (auto simp: plain_arr_def getVariants_scan_nonempty)
qed

lemma cat_eq_Nil: "cat xs ys = [] \<longleftrightarrow> xs = [] \<or> ys = []"
  by (induction ys) (auto simp: cat_Nil_right cat_Cons_right)

lemma hd_cat: "xs \<noteq> [] \<Longrightarrow> ys \<noteq> [] \<Longrightarrow> hd (cat xs ys) = hd xs @ hd ys"
  by (cases ys) (simp_all add: cat_Cons_right hd_append hd_map)

lemma first_arr_Cons: "first_arr (v # arr) = first_item v @ first_arr arr"
  by (simp add: first_arr_def)

lemma hd_expand_arr:
  "(\<And>v. v \<in> set arr \<Longrightarrow> expand_item v \<noteq> [] \<and> hd (expand_item v) = first_item v) \<Longrightarrow>
   expand_arr arr \<noteq> [] \<and> hd (expand_arr arr) = first_arr arr"
proof (induction arr)
  case Nil
  show ?case by (simp add: expand_arr_Nil first_arr_def)
next
  case (Cons v arr)
  then have "expand_item v \<noteq> []" "hd (expand_item v) = first_item v"
    and "expand_arr arr \<noteq> []" "hd (expand_arr arr) = first_arr arr"
    by simp_all
  then show ?case
    by (simp add: expand_arr_Cons_cat cat_eq_Nil hd_cat first_arr_Cons)
qed

lemma hd_expand_item:
  "plain_item g v \<Longrightarrow> expand_item v \<noteq> [] \<and> hd (expand_item v) = first_item v"
proof (induction v arbitrary: g)
  case (Str s)
  show ?case by simp
next
  case (Variants vs p)
  from Variants.prems obtain branch bs where vs: "vs = branch # bs"
    by (cases vs) simp_all
  from Variants.prems
  have pl: "\<And>branch v. branch \<in> set vs \<Longrightarrow> v \<in> set branch \<Longrightarrow> plain_item True v"
    by simp
  have "expand_arr branch \<noteq> [] \<and> hd (expand_arr branch) = first_arr branch"
  proof (rule hd_expand_arr)
    fix v assume "v \<in> set branch"
    with Variants.IH [of branch v True] pl [of branch v] vs
    show "expand_item v \<noteq> [] \<and> hd (expand_item v) = first_item v" by simp
  qed
  with vs show ?case
    by (simp add: expand_item_Variants first_arr_def)
qed

lemma hd_expand_plain:
  assumes "plain_arr g arr"
  shows "expand_arr arr \<noteq> [] \<and> hd (expand_arr arr) = first_arr arr"
proof (rule hd_expand_arr)
  fix v assume "v \<in> set arr"
  with assms have "plain_item g v" by (simp add: plain_arr_def)
  then show "expand_item v \<noteq> [] \<and> hd (expand_item v) = first_item v"
    by (rule hd_expand_item)
qed

lemma expand_getArray_nonempty: "expand_arr (getArray str addEmpty) \<noteq> []"
proof -
  have "ok_arr (getArray str addEmpty)" by (simp add: getArray_fresh)
  then have "index_arr (getArray str addEmpty) < count_arr (getArray str addEmpty)"
    by (rule index_less_count_arr)
  then have "length (expand_arr (getArray str addEmpty)) \<noteq> 0"
    by (simp add: length_expand_arr)
  then show ?thesis by simp
qed

subsection \<open>Brace expansion: the claims\<close>

text \<open>
  C1: every template with balanced braces is the written form of a plain template tree,
  and for every such tree of it the generator yields exactly the combinations of the
  tree's groups, each one once and none left out (a string comes twice only where two
  combinations spell it); their number is the product over the top-level groups of each
  group's count of alternatives, a nested group multiplying the count of the
  alternative that holds it.
\<close>

theorem expandBraces_count:
  assumes "balanced str"
  shows "(\<exists>t. plain_arr False t \<and> unparse_arr t = str) \<and>
         (\<forall>t. plain_arr False t \<and> unparse_arr t = str \<longrightarrow>
              expandBraces str = Some (expand_arr t) \<and>
              length (expand_arr t) = count_arr t)"
proof
  from assms have "plain_arr False (getArray str False)"
    by (simp add: plain_getArray)
  moreover from assms have "unparse_arr (getArray str False) = str"
    by (rule unparse_getArray)
  ultimately show "\<exists>t. plain_arr False t \<and> unparse_arr t = str" by blast
next
  show "\<forall>t. plain_arr False t \<and> unparse_arr t = str \<longrightarrow>
      expandBraces str = Some (expand_arr t) \<and> length (expand_arr t) = count_arr t"
    by (auto simp: expandBraces_unparse length_expand_arr)
qed

theorem expandBraces_count_itemize:
  "balanced ''It{{em,alic}iz,erat}e{d,}, please.'' \<and>
   plain_arr False
     [Str ''It'',
      Variants [[Variants [[Str ''em''], [Str ''alic'']] 0, Str ''iz''], [Str ''erat'']] 0,
      Str ''e'', Variants [[Str ''d''], []] 0, Str '', please.''] \<and>
   unparse_arr
     [Str ''It'',
      Variants [[Variants [[Str ''em''], [Str ''alic'']] 0, Str ''iz''], [Str ''erat'']] 0,
      Str ''e'', Variants [[Str ''d''], []] 0, Str '', please.''] =
     ''It{{em,alic}iz,erat}e{d,}, please.'' \<and>
   expandBraces ''It{{em,alic}iz,erat}e{d,}, please.'' =
     Some [''Itemized, please.'', ''Italicized, please.'', ''Iterated, please.'',
           ''Itemize, please.'', ''Italicize, please.'', ''Iterate, please.''] \<and>
   count_arr
     [Str ''It'',
      Variants [[Variants [[Str ''em''], [Str ''alic'']] 0, Str ''iz''], [Str ''erat'']] 0,
      Str ''e'', Variants [[Str ''d''], []] 0, Str '', please.''] = 6"
proof -
  let ?s = "''It{{em,alic}iz,erat}e{d,}, please.''"
  let ?t = "[Str ''It'',
      Variants [[Variants [[Str ''em''], [Str ''alic'']] 0, Str ''iz''], [Str ''erat'']] 0,
      Str ''e'', Variants [[Str ''d''], []] 0, Str '', please.'']"
  have b: "balanced ?s"
    by code_simp
  have p: "plain_arr False ?t \<and> unparse_arr ?t = ?s"
    by code_simp
  have e: "expand_arr ?t =
      [''Itemized, please.'', ''Italicized, please.'', ''Iterated, please.'',
       ''Itemize, please.'', ''Italicize, please.'', ''Iterate, please.'']"
    by code_simp
  from expandBraces_count [OF b] p
  have "expandBraces ?s = Some (expand_arr ?t) \<and> length (expand_arr ?t) = count_arr ?t"
    by blast
  with b p e show ?thesis by simp
qed

text \<open>
  C2: for \<^verbatim>\<open>thumbnail.{png,jp{e,}g}\<close> the generator yields three strings, pairwise
  different, which are thumbnail.png, thumbnail.jpeg and thumbnail.jpg.
\<close>

theorem expandBraces_thumbnail:
  "\<exists>ys. expandBraces ''thumbnail.{png,jp{e,}g}'' = Some ys \<and>
        length ys = 3 \<and> distinct ys \<and>
        set ys = {''thumbnail.png'', ''thumbnail.jpeg'', ''thumbnail.jpg''}"
proof -
  have "expandBraces ''thumbnail.{png,jp{e,}g}'' =
      Some [''thumbnail.png'', ''thumbnail.jpeg'', ''thumbnail.jpg'']"
    by code_simp
  then show ?thesis by auto
qed

text \<open>
  C3: a string without an opening and without a closing brace is yielded unchanged, and
  nothing else is yielded.
\<close>

theorem expandBraces_no_braces:
  "CHR ''{'' \<notin> set str \<Longrightarrow> CHR ''}'' \<notin> set str \<Longrightarrow> expandBraces str = Some [str]"
  by (simp add: expandBraces_expansions getArray_no_braces expand_arr_def)

theorem expandBraces_nothing_to_do:
  "CHR ''{'' \<notin> set ''nothing to do'' \<and> CHR ''}'' \<notin> set ''nothing to do'' \<and>
   expandBraces ''nothing to do'' = Some [''nothing to do'']"
  using expandBraces_no_braces [of "''nothing to do''"] by simp

text \<open>C4: the empty group gives one empty alternative: \<^verbatim>\<open>a{}b\<close> yields ab and nothing else.\<close>

theorem expandBraces_empty_group: "expandBraces ''a{}b'' = Some [''ab'']"
  by code_simp

text \<open>
  C9: every call of the generator on a string runs to its end and yields a finite,
  non-empty sequence. The call builds all its objects itself, with every position at
  the first alternative, so the sequence depends on the string alone: for a template it
  is the list of the template's combinations in the order of enumeration, and its first
  element is the first combination. Two calls on one string therefore yield the same
  strings, element by element.
\<close>

theorem expandBraces_restartable:
  "\<exists>ys. expandBraces str = Some ys \<and> ys \<noteq> [] \<and>
        (\<forall>t. plain_arr False t \<and> unparse_arr t = str \<longrightarrow>
             ys = expand_arr t \<and> hd ys = first_arr t)"
proof (intro exI conjI allI impI)
  show "expandBraces str = Some (expand_arr (getArray str False))"
    by (rule expandBraces_expansions)
  show "expand_arr (getArray str False) \<noteq> []"
    by (rule expand_getArray_nonempty)
next
  fix t assume t: "plain_arr False t \<and> unparse_arr t = str"
  then show eq: "expand_arr (getArray str False) = expand_arr t"
    using expand_getArray_plain by blast
  from t hd_expand_plain [of False t]
  show "hd (expand_arr (getArray str False)) = first_arr t"
    by (simp add: eq)
qed

theorem expandBraces_restartable_downloads:
  "plain_arr False
     [Str ''~/'', Variants [[Str ''Downloads''], [Str ''Pictures'']] 0, Str ''/*.'',
      Variants [[Str ''jpg''], [Str ''gif''], [Str ''png'']] 0] \<and>
   unparse_arr
     [Str ''~/'', Variants [[Str ''Downloads''], [Str ''Pictures'']] 0, Str ''/*.'',
      Variants [[Str ''jpg''], [Str ''gif''], [Str ''png'']] 0] =
     ''~/{Downloads,Pictures}/*.{jpg,gif,png}'' \<and>
   (\<exists>ys. expandBraces ''~/{Downloads,Pictures}/*.{jpg,gif,png}'' = Some ys \<and> ys \<noteq> [] \<and>
         ys = [''~/Downloads/*.jpg'', ''~/Pictures/*.jpg'', ''~/Downloads/*.gif'',
               ''~/Pictures/*.gif'', ''~/Downloads/*.png'', ''~/Pictures/*.png''] \<and>
         hd ys = ''~/Downloads/*.jpg'')"
proof -
  let ?s = "''~/{Downloads,Pictures}/*.{jpg,gif,png}''"
  let ?t = "[Str ''~/'', Variants [[Str ''Downloads''], [Str ''Pictures'']] 0, Str ''/*.'',
      Variants [[Str ''jpg''], [Str ''gif''], [Str ''png'']] 0]"
  have p: "plain_arr False ?t \<and> unparse_arr ?t = ?s"
    by code_simp
  have e: "expand_arr ?t =
      [''~/Downloads/*.jpg'', ''~/Pictures/*.jpg'', ''~/Downloads/*.gif'',
       ''~/Pictures/*.gif'', ''~/Downloads/*.png'', ''~/Pictures/*.png'']"
    by code_simp
  have f: "first_arr ?t = ''~/Downloads/*.jpg''"
    by code_simp
  from expandBraces_restartable [of ?s] obtain ys
    where "expandBraces ?s = Some ys" "ys \<noteq> []"
      and "\<forall>t. plain_arr False t \<and> unparse_arr t = ?s \<longrightarrow>
             ys = expand_arr t \<and> hd ys = first_arr t"
    by blast
  with p have "expandBraces ?s = Some ys \<and> ys \<noteq> [] \<and> ys = expand_arr ?t \<and>
      hd ys = first_arr ?t"
    by blast
  with p e f show ?thesis by simp
qed

text \<open>C10: the empty string yields the empty string and nothing else.\<close>

theorem expandBraces_empty_string: "expandBraces [] = Some [[]]"
  by code_simp

end
